theory Spec2Isabelle
  imports Complex_Main
begin

section \<open>Person detection and distancing pipeline of demo.py\<close>

text \<open>
  The embedding follows \<^verbatim>\<open>src/demo.py\<close>. Python floats and numpy floats are modelled
  as the real numbers: sums, products and comparisons are exact, so nothing below speaks
  about rounding. Python integers are \<open>int\<close>. An exception of the source is the left
  injection of a sum type.
\<close>

datatype error = IndexError | ZeroDivisionError | ValueError

subsection \<open>Settings (demo.py, lines 17-23)\<close>

definition INPUT_W :: int where "INPUT_W = 640"
definition INPUT_H :: int where "INPUT_H = 640"
definition CONF_THRESH :: real where "CONF_THRESH = 35 / 100"
definition IOU_THRESH :: real where "IOU_THRESH = 45 / 100"
definition PERSON_CLASS_ID :: nat where "PERSON_CLASS_ID = 0"

subsection \<open>compute_iou (demo.py, lines 28-39)\<close>

text \<open>A box is the tuple \<open>(left, top, right, bottom)\<close>.\<close>

type_synonym box = "real \<times> real \<times> real \<times> real"

definition interArea :: "box \<Rightarrow> box \<Rightarrow> real" where
  "interArea boxA boxB =
     (case boxA of (a0, a1, a2, a3) \<Rightarrow> case boxB of (b0, b1, b2, b3) \<Rightarrow>
        let xA = max a0 b0; yA = max a1 b1; xB = min a2 b2; yB = min a3 b3
        in max 0 (xB - xA) * max 0 (yB - yA))"

definition area :: "box \<Rightarrow> real" where
  "area b = (case b of (b0, b1, b2, b3) \<Rightarrow> (b2 - b0) * (b3 - b1))"

text \<open>The denominator of line 39; \<open>1e-6\<close> is the literal of the source.\<close>

definition iou_denom :: "box \<Rightarrow> box \<Rightarrow> real" where
  "iou_denom boxA boxB = area boxA + area boxB - interArea boxA boxB + 1 / 1000000"

text \<open>
  Python's \<open>/\<close> raises ZeroDivisionError on a zero divisor, where HOL's division
  returns 0; the model keeps the raise.
\<close>

definition compute_iou :: "box \<Rightarrow> box \<Rightarrow> error + real" where
  "compute_iou boxA boxB =
     (if iou_denom boxA boxB = 0 then Inl ZeroDivisionError
      else Inr (interArea boxA boxB / iou_denom boxA boxB))"

text \<open>The invariant of a box: \<open>left \<le> right\<close> and \<open>top \<le> bottom\<close>.\<close>

definition box_ok :: "box \<Rightarrow> bool" where
  "box_ok b = (case b of (b0, b1, b2, b3) \<Rightarrow> b0 \<le> b2 \<and> b1 \<le> b3)"

text \<open>The value of the quotient, for boxes on which the division is defined.\<close>

definition iou :: "box \<Rightarrow> box \<Rightarrow> real" where
  "iou boxA boxB = interArea boxA boxB / iou_denom boxA boxB"

subsection \<open>Facts about compute_iou\<close>

lemma interArea_commute: "interArea a b = interArea b a"
  by (cases a; cases b) (simp add: interArea_def Let_def max.commute min.commute)

lemma iou_denom_commute: "iou_denom a b = iou_denom b a"
  by (simp add: iou_denom_def interArea_commute [of a b])

lemma interArea_nonneg: "0 \<le> interArea a b"
  by (cases a; cases b) (simp add: interArea_def Let_def)

lemma area_nonneg: "box_ok b \<Longrightarrow> 0 \<le> area b"
  by (cases b) (simp add: area_def box_ok_def)

lemma interArea_le_area:
  assumes "box_ok a"
  shows "interArea a b \<le> area a"
proof -
  obtain a0 a1 a2 a3 where a: "a = (a0, a1, a2, a3)" by (cases a)
  obtain b0 b1 b2 b3 where b: "b = (b0, b1, b2, b3)" by (cases b)
  from assms a have le: "a0 \<le> a2" "a1 \<le> a3" by (simp_all add: box_ok_def)
  have x: "max 0 (min a2 b2 - max a0 b0) \<le> a2 - a0" using le by (simp add: max_def min_def)
  have y: "max 0 (min a3 b3 - max a1 b1) \<le> a3 - a1" using le by (simp add: max_def min_def)
  have "max 0 (min a2 b2 - max a0 b0) * max 0 (min a3 b3 - max a1 b1) \<le> (a2 - a0) * (a3 - a1)"
    by (rule mult_mono [OF x y]) (use le in simp_all)
  then show ?thesis by (simp add: a b interArea_def area_def Let_def)
qed

lemma iou_denom_pos:
  assumes "box_ok a" "box_ok b"
  shows "0 < iou_denom a b"
proof -
  have "interArea a b \<le> area a" by (rule interArea_le_area [OF assms(1)])
  moreover have "0 \<le> area b" by (rule area_nonneg [OF assms(2)])
  ultimately show ?thesis by (simp add: iou_denom_def)
qed

lemma compute_iou_ok: "box_ok a \<Longrightarrow> box_ok b \<Longrightarrow> compute_iou a b = Inr (iou a b)"
  using iou_denom_pos [of a b] by (simp add: compute_iou_def iou_def)

lemma interArea_self:
  assumes "box_ok a"
  shows "interArea a a = area a"
proof -
  obtain a0 a1 a2 a3 where a: "a = (a0, a1, a2, a3)" by (cases a)
  from assms a have "a0 \<le> a2" "a1 \<le> a3" by (simp_all add: box_ok_def)
  then show ?thesis by (simp add: a interArea_def area_def Let_def max_def)
qed

text \<open>
  C9. IoU is symmetric: \<open>compute_iou a b\<close> and \<open>compute_iou b a\<close> are the same result
  for all boxes, the raised error included.
\<close>

theorem compute_iou_symmetric: "compute_iou a b = compute_iou b a"
  by (simp add: compute_iou_def interArea_commute [of a b] iou_denom_commute [of a b])

text \<open>
  C6 as stated fails: on the unit square the quotient is \<open>1 / (1 + 1e-6)\<close>, not 1.
\<close>

theorem compute_iou_self_counterexample:
  "compute_iou (0, 0, 1, 1) (0, 0, 1, 1) \<noteq> Inr 1"
  by (simp add: compute_iou_def iou_denom_def interArea_def area_def)

text \<open>
  C6 amended. For a box of strictly positive width and height, with area \<open>A\<close>,
  \<open>compute_iou a a\<close> returns \<open>A / (A + 1e-6)\<close>: strictly between 0 and 1, and below 1
  by less than \<open>1e-6 / A\<close>.
\<close>

theorem compute_iou_self:
  assumes "l < r" "t < b"
  shows "compute_iou (l, t, r, b) (l, t, r, b) = Inr (area (l, t, r, b) / (area (l, t, r, b) + 1 / 1000000))
    \<and> 0 < area (l, t, r, b) / (area (l, t, r, b) + 1 / 1000000)
    \<and> area (l, t, r, b) / (area (l, t, r, b) + 1 / 1000000) < 1
    \<and> 1 - area (l, t, r, b) / (area (l, t, r, b) + 1 / 1000000) < (1 / 1000000) / area (l, t, r, b)"
proof -
  let ?a = "(l, t, r, b)"
  let ?A = "area ?a"
  have ok: "box_ok ?a" using assms by (simp add: box_ok_def)
  have A: "0 < ?A" using assms by (simp add: area_def)
  have d: "iou_denom ?a ?a = ?A + 1 / 1000000"
    by (simp add: iou_denom_def interArea_self [OF ok])
  have c: "compute_iou ?a ?a = Inr (?A / (?A + 1 / 1000000))"
    using A by (simp add: compute_iou_def d interArea_self [OF ok])
  have p: "0 < ?A / (?A + 1 / 1000000)" using A by simp
  have u: "?A / (?A + 1 / 1000000) < 1" using A by simp
  have "1 - ?A / (?A + 1 / 1000000) = (1 / 1000000) / (?A + 1 / 1000000)"
    using A by (simp add: field_simps)
  also have "\<dots> < (1 / 1000000) / ?A"
    using A by (intro divide_strict_left_mono) (simp_all add: add_pos_pos)
  finally have g: "1 - ?A / (?A + 1 / 1000000) < (1 / 1000000) / ?A" .
  from c p u g show ?thesis by blast
qed

theorem compute_iou_self_witness:
  "compute_iou (0, 0, 2, 3) (0, 0, 2, 3) = Inr (6000000 / 6000001)"
  using compute_iou_self [of 0 2 0 3] by (simp add: area_def)

subsection \<open>nms (demo.py, lines 41-60)\<close>

text \<open>A scored box is the five-element list \<open>[x1, y1, x2, y2, score]\<close>.\<close>

type_synonym det = "real \<times> real \<times> real \<times> real \<times> real"

definition box4 :: "det \<Rightarrow> box" where
  "box4 d = (case d of (x1, y1, x2, y2, s) \<Rightarrow> (x1, y1, x2, y2))"

definition score :: "det \<Rightarrow> real" where
  "score d = (case d of (x1, y1, x2, y2, s) \<Rightarrow> s)"

text \<open>
  Line 48, \<open>sorted(dets, key=lambda x: x[4], reverse=True)\<close>: Python's sort is stable,
  also under \<open>reverse=True\<close>, so boxes of equal score keep their input order. That is
  the stable ascending sort on the negated score.
\<close>

definition sorted_desc :: "det list \<Rightarrow> det list" where
  "sorted_desc dets = sort_key (\<lambda>x. - score x) dets"

text \<open>Lines 54-57: the inner \<open>for\<close> loop, with \<open>new_dets\<close> as accumulator.\<close>

fun new_dets :: "det \<Rightarrow> real \<Rightarrow> det list \<Rightarrow> det list \<Rightarrow> error + det list" where
  "new_dets best iou_thresh [] acc = Inr acc"
| "new_dets best iou_thresh (d # ds) acc =
     (case compute_iou (box4 best) (box4 d) of
        Inl e \<Rightarrow> Inl e
      | Inr v \<Rightarrow> new_dets best iou_thresh ds (if v < iou_thresh then acc @ [d] else acc))"

lemma new_dets_length:
  "new_dets best t ds acc = Inr r \<Longrightarrow> length r \<le> length acc + length ds"
proof (induction ds arbitrary: acc)
  case Nil
  then show ?case by simp
next
  case (Cons d ds)
  then show ?case by (fastforce split: sum.splits if_splits)
qed

text \<open>Lines 51-58: the \<open>while dets\<close> loop, with \<open>keep\<close> as accumulator.\<close>

function nms_while :: "det list \<Rightarrow> det list \<Rightarrow> real \<Rightarrow> error + det list" where
  "nms_while [] keep iou_thresh = Inr keep"
| "nms_while (best # dets) keep iou_thresh =
     (case new_dets best iou_thresh dets [] of
        Inl e \<Rightarrow> Inl e
      | Inr nd \<Rightarrow> nms_while nd (keep @ [best]) iou_thresh)"
  by pat_completeness auto
termination
proof (relation "measure (\<lambda>(dets, keep, t). length dets)")
  show "wf (measure (\<lambda>(dets, keep, t). length dets))" by simp
next
  fix best dets keep iou_thresh nd
  assume "new_dets best iou_thresh dets [] = Inr nd"
  from new_dets_length [OF this]
  show "((nd, keep @ [best], iou_thresh), (best # dets, keep, iou_thresh))
          \<in> measure (\<lambda>(dets, keep, t). length dets)" by simp
qed

definition nms :: "det list \<Rightarrow> real \<Rightarrow> error + det list" where
  "nms dets iou_thresh =
     (if length dets = 0 then Inr [] else nms_while (sorted_desc dets) [] iou_thresh)"

subsection \<open>Greedy suppression as the specification words it\<close>

text \<open>
  The box of highest score among \<open>d # ds\<close>; among boxes of equal score, the one seen
  first.
\<close>

fun pick_best :: "det \<Rightarrow> det list \<Rightarrow> det" where
  "pick_best d [] = d"
| "pick_best d (e # es) = (let m = pick_best e es in if score m \<le> score d then d else m)"

lemma pick_best_mem: "pick_best d ds \<in> set (d # ds)"
  by (induction ds arbitrary: d) (auto simp: Let_def)

text \<open>
  Select the box of highest remaining score, keep it, and remove every remaining box
  whose IoU with it is in relation \<open>rm\<close> to the threshold; repeat until none remains.
\<close>

function greedy_nms :: "(real \<Rightarrow> real \<Rightarrow> bool) \<Rightarrow> det list \<Rightarrow> real \<Rightarrow> det list" where
  "greedy_nms rm [] t = []"
| "greedy_nms rm (d # ds) t =
     (let best = pick_best d ds;
          remaining = remove1 best (d # ds)
      in best # greedy_nms rm (filter (\<lambda>r. \<not> rm (iou (box4 best) (box4 r)) t) remaining) t)"
  by pat_completeness auto
termination
proof (relation "measure (\<lambda>(rm, dets, t). length dets)")
  show "wf (measure (\<lambda>(rm, dets, t). length dets))" by simp
next
  fix rm :: "real \<Rightarrow> real \<Rightarrow> bool" and d :: det and ds :: "det list" and t :: real and best remaining
  assume b: "best = pick_best d ds" and r: "remaining = remove1 best (d # ds)"
  have "best \<in> set (d # ds)" unfolding b by (rule pick_best_mem)
  then have lt: "length remaining < length (d # ds)"
    unfolding r using length_remove1 [of best "d # ds"] by (simp del: remove1.simps)
  have le: "length (filter (\<lambda>r. \<not> rm (iou (box4 best) (box4 r)) t) remaining) \<le> length remaining"
    by simp
  from le_less_trans [OF le lt] show "((rm, filter (\<lambda>r. \<not> rm (iou (box4 best) (box4 r)) t) remaining, t), (rm, d # ds, t))
      \<in> measure (\<lambda>(rm, dets, t). length dets)" by simp
qed

text \<open>The claim's wording: a box is removed when its IoU exceeds the threshold.\<close>

definition nms_exceeds :: "det list \<Rightarrow> real \<Rightarrow> det list" where
  "nms_exceeds dets t = greedy_nms (\<lambda>v t. v > t) dets t"

text \<open>The source's test: a box is removed when its IoU is not below the threshold.\<close>

definition nms_reaches :: "det list \<Rightarrow> real \<Rightarrow> det list" where
  "nms_reaches dets t = greedy_nms (\<lambda>v t. v \<ge> t) dets t"


subsection \<open>The loop computes the greedy selection\<close>

lemma new_dets_ok:
  assumes "box_ok (box4 best)" "\<forall>d \<in> set ds. box_ok (box4 d)"
  shows "new_dets best t ds acc = Inr (acc @ filter (\<lambda>d. iou (box4 best) (box4 d) < t) ds)"
  using assms(2)
proof (induction ds arbitrary: acc)
  case Nil
  then show ?case by simp
next
  case (Cons d ds)
  have "compute_iou (box4 best) (box4 d) = Inr (iou (box4 best) (box4 d))"
    using assms(1) Cons.prems by (simp add: compute_iou_ok)
  then show ?case using Cons by simp
qed

text \<open>The loop on a list already in selection order: keep the head, drop what it suppresses.\<close>

function sweep :: "real \<Rightarrow> det list \<Rightarrow> det list" where
  "sweep t [] = []"
| "sweep t (b # ds) = b # sweep t (filter (\<lambda>d. iou (box4 b) (box4 d) < t) ds)"
  by pat_completeness auto
termination
  by (relation "measure (\<lambda>(t, ds). length ds)") (simp_all add: less_Suc_eq_le)

lemma nms_while_ok:
  "\<forall>d \<in> set ds. box_ok (box4 d) \<Longrightarrow> nms_while ds keep t = Inr (keep @ sweep t ds)"
proof (induction t ds arbitrary: keep rule: sweep.induct)
  case (1 t)
  then show ?case by simp
next
  case (2 t b ds)
  have nd: "new_dets b t ds [] = Inr (filter (\<lambda>d. iou (box4 b) (box4 d) < t) ds)"
    using "2.prems" new_dets_ok [of b ds t "[]"] by simp
  have "nms_while (filter (\<lambda>d. iou (box4 b) (box4 d) < t) ds) (keep @ [b]) t
          = Inr ((keep @ [b]) @ sweep t (filter (\<lambda>d. iou (box4 b) (box4 d) < t) ds))"
    by (rule "2.IH") (use "2.prems" in simp)
  then show ?case by (simp add: nd)
qed

lemma sorted_desc_Cons:
  "sorted_desc (d # ds) = pick_best d ds # sorted_desc (remove1 (pick_best d ds) (d # ds))"
proof (induction ds arbitrary: d)
  case Nil
  then show ?case by (simp add: sorted_desc_def)
next
  case (Cons e es)
  let ?m = "pick_best e es"
  have s: "sorted_desc (e # es) = ?m # sorted_desc (remove1 ?m (e # es))" by (rule Cons.IH)
  have u: "sorted_desc (d # e # es) = insort_key (\<lambda>x. - score x) d (sorted_desc (e # es))"
    by (simp add: sorted_desc_def)
  show ?case
  proof (cases "score ?m \<le> score d")
    case True
    then have "pick_best d (e # es) = d" by (simp add: Let_def)
    moreover have "sorted_desc (d # e # es) = d # sorted_desc (e # es)"
      using True by (simp only: u s) simp
    ultimately show ?thesis by simp
  next
    case False
    then have p: "pick_best d (e # es) = ?m" by (simp add: Let_def)
    from False have ne: "d \<noteq> ?m" by auto
    have "sorted_desc (d # e # es) = ?m # insort_key (\<lambda>x. - score x) d (sorted_desc (remove1 ?m (e # es)))"
      using False by (simp only: u s) simp
    also have "insort_key (\<lambda>x. - score x) d (sorted_desc (remove1 ?m (e # es)))
                 = sorted_desc (d # remove1 ?m (e # es))"
      by (simp add: sorted_desc_def)
    also have "d # remove1 ?m (e # es) = remove1 ?m (d # e # es)"
      using ne by simp
    finally show ?thesis by (simp only: p)
  qed
qed

lemma filter_sorted_desc: "filter P (sorted_desc xs) = sorted_desc (filter P xs)"
  by (simp add: sorted_desc_def filter_sort)

lemma sweep_sorted_desc:
  "sweep t (sorted_desc xs) = greedy_nms (\<lambda>v t. v \<ge> t) xs t"
proof (induction "length xs" arbitrary: xs rule: less_induct)
  case less
  show ?case
  proof (cases xs)
    case Nil
    then show ?thesis by (simp add: sorted_desc_def)
  next
    case (Cons d ds)
    let ?b = "pick_best d ds"
    let ?rest = "filter (\<lambda>r. iou (box4 ?b) (box4 r) < t) (remove1 ?b (d # ds))"
    have "?b \<in> set (d # ds)" by (rule pick_best_mem)
    then have lt: "length (remove1 ?b (d # ds)) < length (d # ds)"
      using length_remove1 [of ?b "d # ds"] by (simp del: remove1.simps)
    have le: "length ?rest \<le> length (remove1 ?b (d # ds))" by (rule length_filter_le)
    have "length ?rest < length xs" unfolding Cons by (rule le_less_trans [OF le lt])
    then have ih: "sweep t (sorted_desc ?rest) = greedy_nms (\<lambda>v t. v \<ge> t) ?rest t"
      by (rule less)
    have "sweep t (sorted_desc (d # ds)) = ?b # sweep t (sorted_desc ?rest)"
      by (simp only: sorted_desc_Cons [of d ds] sweep.simps filter_sorted_desc)
    also have "\<dots> = greedy_nms (\<lambda>v t. v \<ge> t) (d # ds) t"
      by (simp add: ih Let_def not_le del: remove1.simps)
    finally show ?thesis by (simp only: Cons)
  qed
qed

lemma pick_best_max: "e \<in> set (d # ds) \<Longrightarrow> score e \<le> score (pick_best d ds)"
proof (induction ds arbitrary: d e)
  case Nil
  then show ?case by simp
next
  case (Cons a as)
  show ?case
  proof (cases "e = d")
    case True
    then show ?thesis by (simp add: Let_def)
  next
    case False
    with Cons.prems have "e \<in> set (a # as)" by simp
    then have "score e \<le> score (pick_best a as)" by (rule Cons.IH)
    then show ?thesis by (auto simp: Let_def)
  qed
qed

lemma greedy_nms_subset: "set (greedy_nms rm xs t) \<subseteq> set xs"
proof (induction rm xs t rule: greedy_nms.induct)
  case (1 rm t)
  then show ?case by simp
next
  case (2 rm d ds t)
  let ?b = "pick_best d ds"
  let ?rest = "filter (\<lambda>r. \<not> rm (iou (box4 ?b) (box4 r)) t) (remove1 ?b (d # ds))"
  have "set (greedy_nms rm ?rest t) \<subseteq> set ?rest" by (rule "2.IH") simp_all
  also have "\<dots> \<subseteq> set (remove1 ?b (d # ds))" by (rule filter_is_subset)
  also have "\<dots> \<subseteq> set (d # ds)" by (rule set_remove1_subset)
  finally have r: "set (greedy_nms rm ?rest t) \<subseteq> set (d # ds)" .
  have "?b \<in> set (d # ds)" by (rule pick_best_mem)
  with r show ?case by (simp add: Let_def del: remove1.simps set_simps) (auto simp del: remove1.simps)
qed

lemma greedy_nms_descending:
  "sorted_wrt (\<lambda>a b. score b \<le> score a) (greedy_nms rm xs t)"
proof (induction rm xs t rule: greedy_nms.induct)
  case (1 rm t)
  then show ?case by simp
next
  case (2 rm d ds t)
  let ?b = "pick_best d ds"
  let ?rest = "filter (\<lambda>r. \<not> rm (iou (box4 ?b) (box4 r)) t) (remove1 ?b (d # ds))"
  have s: "sorted_wrt (\<lambda>a b. score b \<le> score a) (greedy_nms rm ?rest t)"
    by (rule "2.IH") simp_all
  have "set (greedy_nms rm ?rest t) \<subseteq> set ?rest" by (rule greedy_nms_subset)
  also have "\<dots> \<subseteq> set (remove1 ?b (d # ds))" by (rule filter_is_subset)
  also have "\<dots> \<subseteq> set (d # ds)" by (rule set_remove1_subset)
  finally have "\<forall>e \<in> set (greedy_nms rm ?rest t). score e \<le> score ?b"
    using pick_best_max [of _ d ds] by blast
  with s show ?case by (simp add: Let_def del: remove1.simps)
qed

text \<open>
  C2 as stated fails. With threshold 0 the two disjoint boxes below have IoU exactly 0,
  which does not exceed the threshold, so the claim keeps both; line 56 keeps a box only
  when its IoU is strictly below the threshold, and the second box is removed.
\<close>

theorem nms_exceeds_counterexample:
  "compute_iou (0, 0, 1, 1) (2, 2, 3, 3) = Inr 0
   \<and> nms [(0, 0, 1, 1, 9 / 10), (2, 2, 3, 3, 8 / 10)] 0 = Inr [(0, 0, 1, 1, 9 / 10)]
   \<and> nms_exceeds [(0, 0, 1, 1, 9 / 10), (2, 2, 3, 3, 8 / 10)] 0
       = [(0, 0, 1, 1, 9 / 10), (2, 2, 3, 3, 8 / 10)]
   \<and> nms [(0, 0, 1, 1, 9 / 10), (2, 2, 3, 3, 8 / 10)] 0
       \<noteq> Inr (nms_exceeds [(0, 0, 1, 1, 9 / 10), (2, 2, 3, 3, 8 / 10)] 0)"
  by (simp add: nms_def nms_exceeds_def sorted_desc_def score_def box4_def compute_iou_def
      iou_def iou_denom_def interArea_def area_def)

text \<open>
  C2 amended. For every list of scored boxes (each with \<open>left \<le> right\<close> and
  \<open>top \<le> bottom\<close>) and every threshold \<open>t\<close>, \<open>nms\<close> returns, without raising, what
  the greedy selection returns that repeatedly selects the box of highest remaining score
  (the first seen among equal scores) and removes every remaining box whose IoU with it
  is greater than or equal to \<open>t\<close>; the output is in selection order, scores descending.
\<close>

theorem nms_reaches_correct:
  assumes "\<forall>d \<in> set dets. box_ok (box4 d)"
  shows "nms dets t = Inr (nms_reaches dets t)
     \<and> sorted_wrt (\<lambda>a b. score b \<le> score a) (nms_reaches dets t)"
proof -
  have ok: "\<forall>d \<in> set (sorted_desc dets). box_ok (box4 d)"
    using assms by (simp add: sorted_desc_def)
  have "nms dets t = Inr (sweep t (sorted_desc dets))"
  proof (cases "dets = []")
    case True
    then show ?thesis by (simp add: nms_def sorted_desc_def)
  next
    case False
    then show ?thesis using nms_while_ok [OF ok, of "[]" t] by (simp add: nms_def)
  qed
  then have "nms dets t = Inr (nms_reaches dets t)"
    by (simp add: sweep_sorted_desc nms_reaches_def)
  moreover have "sorted_wrt (\<lambda>a b. score b \<le> score a) (nms_reaches dets t)"
    unfolding nms_reaches_def by (rule greedy_nms_descending)
  ultimately show ?thesis by simp
qed

theorem nms_reaches_correct_witness:
  "nms [(0, 0, 10, 10, 9 / 10), (1, 1, 11, 11, 8 / 10), (50, 50, 60, 60, 7 / 10)] (45 / 100)
     = Inr [(0, 0, 10, 10, 9 / 10), (50, 50, 60, 60, 7 / 10)]"
  using nms_reaches_correct [of "[(0, 0, 10, 10, 9 / 10), (1, 1, 11, 11, 8 / 10), (50, 50, 60, 60, 7 / 10)]" "45 / 100"]
  by (simp add: nms_reaches_def score_def box4_def box_ok_def
      iou_def iou_denom_def interArea_def area_def)

subsection \<open>decode_yolov11_persons (demo.py, lines 132-192)\<close>

text \<open>
  A two-dimensional numpy array: its shape and its entries. \<open>item a r c\<close> is \<open>a[r, c]\<close>
  and is read only for \<open>r < shape0 a\<close> and \<open>c < shape1 a\<close>. The argument \<open>output\<close> of
  the decoder, of shape \<open>(1, 84, 8400)\<close>, is the list of its slices along the first axis.
\<close>

record ndarray2 =
  shape0 :: nat
  shape1 :: nat
  item :: "nat \<Rightarrow> nat \<Rightarrow> real"

text \<open>
  \<open>np.argmax\<close> and \<open>np.max\<close> along a row, as numpy documents them: the index of the
  first occurrence of the maximum, and the maximum; both raise ValueError on an empty
  row.
\<close>

fun argmax_scan :: "real list \<Rightarrow> nat \<Rightarrow> nat \<Rightarrow> real \<Rightarrow> nat" where
  "argmax_scan [] i best_i best_v = best_i"
| "argmax_scan (x # xs) i best_i best_v =
     (if best_v < x then argmax_scan xs (i + 1) i x else argmax_scan xs (i + 1) best_i best_v)"

definition np_argmax :: "real list \<Rightarrow> error + nat" where
  "np_argmax row = (case row of [] \<Rightarrow> Inl ValueError | x # xs \<Rightarrow> Inr (argmax_scan xs 1 0 x))"

definition np_max :: "real list \<Rightarrow> error + real" where
  "np_max row = (case row of [] \<Rightarrow> Inl ValueError | x # xs \<Rightarrow> Inr (fold max xs x))"

text \<open>Applying a row operation to every row (\<open>axis=1\<close>); the first error is raised.\<close>

fun along_rows :: "(real list \<Rightarrow> error + 'a) \<Rightarrow> real list list \<Rightarrow> error + 'a list" where
  "along_rows f [] = Inr []"
| "along_rows f (row # rows) =
     (case f row of
        Inl e \<Rightarrow> Inl e
      | Inr v \<Rightarrow> (case along_rows f rows of Inl e \<Rightarrow> Inl e | Inr vs \<Rightarrow> Inr (v # vs)))"

text \<open>Boolean-mask indexing \<open>a[mask]\<close>.\<close>

definition select :: "bool list \<Rightarrow> 'a list \<Rightarrow> 'a list" where
  "select m xs = map snd (filter fst (zip m xs))"

text \<open>Lines 143-148: the transposed slices \<open>out[0:4, :].T\<close> and \<open>out[4:, :].T\<close>.\<close>

definition boxes_T :: "ndarray2 \<Rightarrow> real list list" where
  "boxes_T out = map (\<lambda>k. map (\<lambda>r. item out r k) [0..<min 4 (shape0 out)]) [0..<shape1 out]"

definition scores_T :: "ndarray2 \<Rightarrow> real list list" where
  "scores_T out = map (\<lambda>k. map (\<lambda>r. item out r k) [4..<shape0 out]) [0..<shape1 out]"

text \<open>Line 155: the mask of person anchors above the confidence threshold.\<close>

definition person_mask :: "nat list \<Rightarrow> real list \<Rightarrow> real \<Rightarrow> bool list" where
  "person_mask cls_ids cls_scores conf_thres =
     map2 (\<lambda>c s. c = PERSON_CLASS_ID \<and> conf_thres < s) cls_ids cls_scores"

text \<open>
  Lines 159-188: from the masked boxes and scores to the list \<open>dets\<close>. The columns
  \<open>x1, y1, x2, y2\<close> all have the length of \<open>cls_scores\<close>, so the reads by index of
  lines 185-187 are in range.
\<close>

definition scaled_dets :: "real list list \<Rightarrow> real list \<Rightarrow> int \<Rightarrow> int \<Rightarrow> det list" where
  "scaled_dets boxes cls_scores orig_w orig_h =
     (let cx = map (\<lambda>b. b ! 0) boxes;
          cy = map (\<lambda>b. b ! 1) boxes;
          w = map (\<lambda>b. b ! 2) boxes;
          h = map (\<lambda>b. b ! 3) boxes;
          x1 = map2 (\<lambda>c e. c - e / 2) cx w;
          y1 = map2 (\<lambda>c e. c - e / 2) cy h;
          x2 = map2 (\<lambda>c e. c + e / 2) cx w;
          y2 = map2 (\<lambda>c e. c + e / 2) cy h;
          scale_x = real_of_int orig_w / real_of_int INPUT_W;
          scale_y = real_of_int orig_h / real_of_int INPUT_H;
          x1 = map (\<lambda>v. v * scale_x) x1;
          x2 = map (\<lambda>v. v * scale_x) x2;
          y1 = map (\<lambda>v. v * scale_y) y1;
          y2 = map (\<lambda>v. v * scale_y) y2
      in map (\<lambda>i. (x1 ! i, y1 ! i, x2 ! i, y2 ! i, cls_scores ! i)) [0..<length cls_scores])"

definition decode_yolov11_persons ::
    "ndarray2 list \<Rightarrow> int \<Rightarrow> int \<Rightarrow> real \<Rightarrow> error + det list" where
  "decode_yolov11_persons output orig_w orig_h conf_thres =
     (case output of
        [] \<Rightarrow> Inl IndexError
      | out # _ \<Rightarrow>
          if shape0 out \<noteq> 84 then Inr []
          else
            let boxes = boxes_T out; scores = scores_T out
            in case along_rows np_argmax scores of
                 Inl e \<Rightarrow> Inl e
               | Inr cls_ids \<Rightarrow>
                   (case along_rows np_max scores of
                      Inl e \<Rightarrow> Inl e
                    | Inr cls_scores \<Rightarrow>
                        let mask = person_mask cls_ids cls_scores conf_thres
                        in if \<not> list_ex (\<lambda>m. m) mask then Inr []
                           else
                             let boxes = select mask boxes;
                                 cls_scores = select mask cls_scores;
                                 dets = scaled_dets boxes cls_scores orig_w orig_h
                             in nms dets IOU_THRESH))"


text \<open>
  Anchor \<open>k\<close> passes the filter of line 155: no class score of the anchor is above its
  person score (row 4), and the person score is above the confidence threshold.
\<close>

definition is_person :: "ndarray2 \<Rightarrow> real \<Rightarrow> nat \<Rightarrow> bool" where
  "is_person out conf_thres k =
     ((\<forall>r \<in> {4..<shape0 out}. item out r k \<le> item out 4 k) \<and> conf_thres < item out 4 k)"

subsection \<open>Facts about the decoder\<close>

lemma argmax_scan_inv:
  assumes "length pre = i" "best_i < i" "pre ! best_i = best_v"
    and "\<forall>j < i. pre ! j \<le> best_v" "\<forall>j < best_i. pre ! j < best_v"
  shows "argmax_scan xs i best_i best_v < length (pre @ xs)
    \<and> (\<forall>j < length (pre @ xs). (pre @ xs) ! j \<le> (pre @ xs) ! argmax_scan xs i best_i best_v)
    \<and> (\<forall>j < argmax_scan xs i best_i best_v.
          (pre @ xs) ! j < (pre @ xs) ! argmax_scan xs i best_i best_v)"
  using assms
proof (induction xs arbitrary: pre i best_i best_v)
  case Nil
  then show ?case by simp
next
  case (Cons x xs)
  show ?case
  proof (cases "best_v < x")
    case True
    have "argmax_scan xs (i + 1) i x < length ((pre @ [x]) @ xs)
      \<and> (\<forall>j < length ((pre @ [x]) @ xs). ((pre @ [x]) @ xs) ! j \<le> ((pre @ [x]) @ xs) ! argmax_scan xs (i + 1) i x)
      \<and> (\<forall>j < argmax_scan xs (i + 1) i x.
            ((pre @ [x]) @ xs) ! j < ((pre @ [x]) @ xs) ! argmax_scan xs (i + 1) i x)"
    proof (rule Cons.IH)
      show "length (pre @ [x]) = i + 1" using Cons.prems(1) by simp
      show "i < i + 1" by simp
      show "(pre @ [x]) ! i = x" using Cons.prems(1) by (simp add: nth_append)
      show "\<forall>j < i + 1. (pre @ [x]) ! j \<le> x"
        using Cons.prems(1,4) True by (auto simp: nth_append less_Suc_eq)
      show "\<forall>j < i. (pre @ [x]) ! j < x"
        using Cons.prems(1,4) True by (auto simp: nth_append)
    qed
    then show ?thesis using True by simp
  next
    case False
    have "argmax_scan xs (i + 1) best_i best_v < length ((pre @ [x]) @ xs)
      \<and> (\<forall>j < length ((pre @ [x]) @ xs). ((pre @ [x]) @ xs) ! j \<le> ((pre @ [x]) @ xs) ! argmax_scan xs (i + 1) best_i best_v)
      \<and> (\<forall>j < argmax_scan xs (i + 1) best_i best_v.
            ((pre @ [x]) @ xs) ! j < ((pre @ [x]) @ xs) ! argmax_scan xs (i + 1) best_i best_v)"
    proof (rule Cons.IH)
      show "length (pre @ [x]) = i + 1" using Cons.prems(1) by simp
      show "best_i < i + 1" using Cons.prems(2) by simp
      show "(pre @ [x]) ! best_i = best_v" using Cons.prems(1,2,3) by (simp add: nth_append)
      show "\<forall>j < i + 1. (pre @ [x]) ! j \<le> best_v"
        using Cons.prems(1,4) False by (auto simp: nth_append less_Suc_eq)
      show "\<forall>j < best_i. (pre @ [x]) ! j < best_v"
        using Cons.prems(1,2,5) by (auto simp: nth_append)
    qed
    then show ?thesis using False by simp
  qed
qed

lemma argmax_scan_first:
  "argmax_scan xs 1 0 x < length (x # xs)
   \<and> (\<forall>j < length (x # xs). (x # xs) ! j \<le> (x # xs) ! argmax_scan xs 1 0 x)
   \<and> (\<forall>j < argmax_scan xs 1 0 x. (x # xs) ! j < (x # xs) ! argmax_scan xs 1 0 x)"
  using argmax_scan_inv [of "[x]" 1 0 x xs] by simp

lemma argmax_scan_zero_iff:
  "argmax_scan xs 1 0 x = 0 \<longleftrightarrow> (\<forall>y \<in> set xs. y \<le> x)"
proof
  assume z: "argmax_scan xs 1 0 x = 0"
  show "\<forall>y \<in> set xs. y \<le> x"
  proof
    fix y assume "y \<in> set xs"
    then obtain j where j: "j < length xs" "xs ! j = y" by (auto simp: in_set_conv_nth)
    from argmax_scan_first [of xs x] z have a: "\<forall>j < length (x # xs). (x # xs) ! j \<le> x" by simp
    have "Suc j < length (x # xs)" using j(1) by simp
    with a have "(x # xs) ! Suc j \<le> x" by blast
    then show "y \<le> x" using j(2) by simp
  qed
next
  assume a: "\<forall>y \<in> set xs. y \<le> x"
  show "argmax_scan xs 1 0 x = 0"
  proof (rule ccontr)
    assume n: "argmax_scan xs 1 0 x \<noteq> 0"
    let ?r = "argmax_scan xs 1 0 x"
    from argmax_scan_first [of xs x] have r: "?r < length (x # xs)"
      and lt: "\<forall>j < ?r. (x # xs) ! j < (x # xs) ! ?r" by blast+
    from n lt have "x < (x # xs) ! ?r" by auto
    moreover have "(x # xs) ! ?r \<in> set xs" using n r by (cases ?r) auto
    ultimately show False using a by fastforce
  qed
qed

lemma fold_max_ge: "x \<le> fold max xs (x::real)"
proof (induction xs arbitrary: x)
  case Nil
  then show ?case by simp
next
  case (Cons y ys)
  have "max y x \<le> fold max ys (max y x)" by (rule Cons.IH)
  then show ?case by simp
qed

lemma fold_max_first: "\<forall>y \<in> set xs. y \<le> x \<Longrightarrow> fold max xs (x::real) = x"
  by (induction xs) (simp_all add: max_def)

lemma along_rows_map:
  "\<forall>k \<in> set ks. f (g k) = Inr (h k) \<Longrightarrow> along_rows f (map g ks) = Inr (map h ks)"
  by (induction ks) simp_all

lemma map2_map_map: "map2 f (map g xs) (map h xs) = map (\<lambda>x. f (g x) (h x)) xs"
  by (induction xs) simp_all

lemma select_map: "select (map P xs) (map f xs) = map f (filter P xs)"
  by (induction xs) (simp_all add: select_def)

lemma list_ex_map_filter: "list_ex (\<lambda>m. m) (map P xs) \<longleftrightarrow> filter P xs \<noteq> []"
  by (induction xs) simp_all

lemma scaled_dets_map:
  "scaled_dets (map (\<lambda>k. [a k, b k, c k, d k]) ks) (map s ks) orig_w orig_h =
     map (\<lambda>k. ((a k - c k / 2) * (real_of_int orig_w / 640),
               (b k - d k / 2) * (real_of_int orig_h / 640),
               (a k + c k / 2) * (real_of_int orig_w / 640),
               (b k + d k / 2) * (real_of_int orig_h / 640),
               s k)) ks"
  by (rule nth_equalityI)
    (simp_all add: scaled_dets_def Let_def map2_map_map INPUT_W_def INPUT_H_def o_def)

text \<open>The score row of anchor \<open>k\<close> starts with the person score (row 4).\<close>

lemma score_row:
  assumes "4 < shape0 out"
  shows "map (\<lambda>r. item out r k) [4..<shape0 out]
           = item out 4 k # map (\<lambda>r. item out r k) [5..<shape0 out]"
  using assms by (simp add: upt_conv_Cons)

lemma best_classes:
  assumes "4 < shape0 out"
  shows "along_rows np_argmax (scores_T out)
           = Inr (map (\<lambda>k. argmax_scan (map (\<lambda>r. item out r k) [5..<shape0 out]) 1 0 (item out 4 k)) [0..<shape1 out])"
    and "along_rows np_max (scores_T out)
           = Inr (map (\<lambda>k. fold max (map (\<lambda>r. item out r k) [5..<shape0 out]) (item out 4 k)) [0..<shape1 out])"
  unfolding scores_T_def
  by (rule along_rows_map; simp add: score_row [OF assms] np_argmax_def np_max_def)+

lemma le_person_iff:
  assumes "4 < shape0 out"
  shows "(\<forall>y \<in> set (map (\<lambda>r. item out r k) [5..<shape0 out]). y \<le> item out 4 k)
           \<longleftrightarrow> (\<forall>r \<in> {4..<shape0 out}. item out r k \<le> item out 4 k)"
proof -
  have "{4..<shape0 out} = insert 4 {5..<shape0 out}" using assms by auto
  then show ?thesis by simp
qed

lemma mask_entry:
  assumes "4 < shape0 out"
  shows "(argmax_scan (map (\<lambda>r. item out r k) [5..<shape0 out]) 1 0 (item out 4 k) = PERSON_CLASS_ID
          \<and> conf < fold max (map (\<lambda>r. item out r k) [5..<shape0 out]) (item out 4 k))
         \<longleftrightarrow> is_person out conf k"
proof -
  let ?xs = "map (\<lambda>r. item out r k) [5..<shape0 out]"
  show ?thesis
  proof (cases "\<forall>y \<in> set ?xs. y \<le> item out 4 k")
    case True
    then have "fold max ?xs (item out 4 k) = item out 4 k" by (rule fold_max_first)
    moreover have "argmax_scan ?xs 1 0 (item out 4 k) = 0"
      using True by (simp only: argmax_scan_zero_iff)
    moreover have "\<forall>r \<in> {4..<shape0 out}. item out r k \<le> item out 4 k"
      using True by (simp only: le_person_iff [OF assms])
    ultimately show ?thesis by (simp add: is_person_def PERSON_CLASS_ID_def)
  next
    case False
    then have "argmax_scan ?xs 1 0 (item out 4 k) \<noteq> 0"
      by (simp only: argmax_scan_zero_iff) simp
    moreover have "\<not> (\<forall>r \<in> {4..<shape0 out}. item out r k \<le> item out 4 k)"
      using False by (simp only: le_person_iff [OF assms]) simp
    ultimately show ?thesis by (simp add: is_person_def PERSON_CLASS_ID_def)
  qed
qed

lemma person_max:
  assumes "4 < shape0 out" "is_person out conf k"
  shows "fold max (map (\<lambda>r. item out r k) [5..<shape0 out]) (item out 4 k) = item out 4 k"
proof (rule fold_max_first)
  from assms(2) have "\<forall>r \<in> {4..<shape0 out}. item out r k \<le> item out 4 k"
    by (simp add: is_person_def)
  then show "\<forall>y \<in> set (map (\<lambda>r. item out r k) [5..<shape0 out]). y \<le> item out 4 k"
    by (simp only: le_person_iff [OF assms(1)])
qed

lemma boxes_T_rows:
  assumes "4 < shape0 out"
  shows "boxes_T out = map (\<lambda>k. [item out 0 k, item out 1 k, item out 2 k, item out 3 k]) [0..<shape1 out]"
proof -
  have "[0..<4] = [0, 1, 2, 3::nat]" by (simp add: upt_rec)
  moreover have "min 4 (shape0 out) = 4" using assms by simp
  ultimately show ?thesis by (simp add: boxes_T_def)
qed

lemma decode_84:
  assumes "shape0 out = 84"
  shows "decode_yolov11_persons (out # rest) orig_w orig_h conf =
     nms (map (\<lambda>k. ((item out 0 k - item out 2 k / 2) * (real_of_int orig_w / 640),
                    (item out 1 k - item out 3 k / 2) * (real_of_int orig_h / 640),
                    (item out 0 k + item out 2 k / 2) * (real_of_int orig_w / 640),
                    (item out 1 k + item out 3 k / 2) * (real_of_int orig_h / 640),
                    item out 4 k))
            (filter (is_person out conf) [0..<shape1 out])) IOU_THRESH"
proof -
  let ?ks = "[0..<shape1 out]"
  let ?id = "\<lambda>k. argmax_scan (map (\<lambda>r. item out r k) [5..<shape0 out]) 1 0 (item out 4 k)"
  let ?mx = "\<lambda>k. fold max (map (\<lambda>r. item out r k) [5..<shape0 out]) (item out 4 k)"
  let ?P = "is_person out conf"
  have n: "4 < shape0 out" and e: "(shape0 out \<noteq> 84) = False" using assms by simp_all
  have m: "person_mask (map ?id ?ks) (map ?mx ?ks) conf = map ?P ?ks"
    by (simp only: person_mask_def map2_map_map mask_entry [OF n])
  have sc: "select (map ?P ?ks) (map ?mx ?ks) = map (\<lambda>k. item out 4 k) (filter ?P ?ks)"
    using person_max [OF n, of conf] by (auto simp: select_map)
  have bx: "select (map ?P ?ks) (boxes_T out)
      = map (\<lambda>k. [item out 0 k, item out 1 k, item out 2 k, item out 3 k]) (filter ?P ?ks)"
    by (simp only: boxes_T_rows [OF n] select_map)
  show ?thesis
  proof (cases "filter ?P ?ks = []")
    case True
    then have "\<not> list_ex (\<lambda>m. m) (map ?P ?ks)" by (simp only: list_ex_map_filter) simp
    then show ?thesis
      using True
      by (simp add: decode_yolov11_persons_def e best_classes [OF n] m nms_def Let_def
          del: One_nat_def)
  next
    case False
    then have "list_ex (\<lambda>m. m) (map ?P ?ks)" by (simp only: list_ex_map_filter) simp
    then show ?thesis
      by (simp add: decode_yolov11_persons_def e best_classes [OF n] m sc bx
          scaled_dets_map Let_def del: One_nat_def)
  qed
qed


lemma new_dets_subset: "new_dets best t ds acc = Inr r \<Longrightarrow> set r \<subseteq> set acc \<union> set ds"
proof (induction ds arbitrary: acc)
  case Nil
  then show ?case by simp
next
  case (Cons d ds)
  then show ?case by (fastforce split: sum.splits if_splits)
qed

lemma nms_while_subset: "nms_while ds keep t = Inr r \<Longrightarrow> set r \<subseteq> set keep \<union> set ds"
proof (induction ds keep t rule: nms_while.induct)
  case (1 keep t)
  then show ?case by simp
next
  case (2 best dets keep t)
  from "2.prems" obtain nd where nd: "new_dets best t dets [] = Inr nd"
    and w: "nms_while nd (keep @ [best]) t = Inr r"
    by (auto split: sum.splits)
  have "set r \<subseteq> set (keep @ [best]) \<union> set nd" by (rule "2.IH" [OF nd w])
  moreover have "set nd \<subseteq> set dets" using new_dets_subset [OF nd] by simp
  ultimately show ?case by auto
qed

lemma nms_subset: "nms dets t = Inr r \<Longrightarrow> set r \<subseteq> set dets"
  using nms_while_subset [of "sorted_desc dets" "[]" t r]
  by (auto simp: nms_def sorted_desc_def split: if_splits)

text \<open>
  C4. A tensor whose number of rows (attributes) is not 84 is decoded to the empty
  list; nothing is raised.
\<close>

theorem decode_wrong_shape:
  "shape0 out \<noteq> 84 \<Longrightarrow> decode_yolov11_persons (out # rest) orig_w orig_h conf_thres = Inr []"
  by (simp add: decode_yolov11_persons_def)

theorem decode_wrong_shape_witness:
  "decode_yolov11_persons [\<lparr>shape0 = 10, shape1 = 8400, item = (\<lambda>r k. 1)\<rparr>] 1280 720 CONF_THRESH
     = Inr []"
  using decode_wrong_shape [of "\<lparr>shape0 = 10, shape1 = 8400, item = (\<lambda>r k. 1)\<rparr>" "[]" 1280 720 CONF_THRESH]
  by simp

text \<open>
  C5. With 84 rows, the list handed to \<open>nms\<close> holds, for every anchor \<open>k\<close> that passes
  the class and confidence filter and in anchor order, the box
  \<open>(cx - w/2, cy - h/2, cx + w/2, cy + h/2)\<close> with both x-coordinates multiplied by
  \<open>orig_w / 640\<close> and both y-coordinates by \<open>orig_h / 640\<close>, together with the person
  score; every detection the decoder returns is one of these.
\<close>

theorem decode_boxes:
  assumes "shape0 out = 84"
  shows "decode_yolov11_persons (out # rest) orig_w orig_h conf =
     nms (map (\<lambda>k. ((item out 0 k - item out 2 k / 2) * (real_of_int orig_w / 640),
                    (item out 1 k - item out 3 k / 2) * (real_of_int orig_h / 640),
                    (item out 0 k + item out 2 k / 2) * (real_of_int orig_w / 640),
                    (item out 1 k + item out 3 k / 2) * (real_of_int orig_h / 640),
                    item out 4 k))
            (filter (is_person out conf) [0..<shape1 out])) IOU_THRESH
   \<and> (\<forall>ds. decode_yolov11_persons (out # rest) orig_w orig_h conf = Inr ds \<longrightarrow>
        (\<forall>d \<in> set ds. \<exists>k < shape1 out. is_person out conf k \<and>
           d = ((item out 0 k - item out 2 k / 2) * (real_of_int orig_w / 640),
                (item out 1 k - item out 3 k / 2) * (real_of_int orig_h / 640),
                (item out 0 k + item out 2 k / 2) * (real_of_int orig_w / 640),
                (item out 1 k + item out 3 k / 2) * (real_of_int orig_h / 640),
                item out 4 k)))"
proof (intro conjI allI impI ballI)
  show "decode_yolov11_persons (out # rest) orig_w orig_h conf =
     nms (map (\<lambda>k. ((item out 0 k - item out 2 k / 2) * (real_of_int orig_w / 640),
                    (item out 1 k - item out 3 k / 2) * (real_of_int orig_h / 640),
                    (item out 0 k + item out 2 k / 2) * (real_of_int orig_w / 640),
                    (item out 1 k + item out 3 k / 2) * (real_of_int orig_h / 640),
                    item out 4 k))
            (filter (is_person out conf) [0..<shape1 out])) IOU_THRESH"
    by (rule decode_84 [OF assms])
next
  fix ds d
  assume r: "decode_yolov11_persons (out # rest) orig_w orig_h conf = Inr ds" and d: "d \<in> set ds"
  from r have "nms (map (\<lambda>k. ((item out 0 k - item out 2 k / 2) * (real_of_int orig_w / 640),
                    (item out 1 k - item out 3 k / 2) * (real_of_int orig_h / 640),
                    (item out 0 k + item out 2 k / 2) * (real_of_int orig_w / 640),
                    (item out 1 k + item out 3 k / 2) * (real_of_int orig_h / 640),
                    item out 4 k))
            (filter (is_person out conf) [0..<shape1 out])) IOU_THRESH = Inr ds"
    by (simp only: decode_84 [OF assms])
  from nms_subset [OF this] d
  show "\<exists>k < shape1 out. is_person out conf k \<and>
           d = ((item out 0 k - item out 2 k / 2) * (real_of_int orig_w / 640),
                (item out 1 k - item out 3 k / 2) * (real_of_int orig_h / 640),
                (item out 0 k + item out 2 k / 2) * (real_of_int orig_w / 640),
                (item out 1 k + item out 3 k / 2) * (real_of_int orig_h / 640),
                item out 4 k)"
    by auto
qed

definition one_person :: ndarray2 where
  "one_person = \<lparr>shape0 = 84, shape1 = 1,
     item = (\<lambda>r k. if r = 0 then 100 else if r = 1 then 200 else if r = 2 then 40
                    else if r = 3 then 80 else if r = 4 then 9 / 10 else 0)\<rparr>"

theorem decode_boxes_witness:
  "decode_yolov11_persons [one_person] 1280 720 CONF_THRESH = Inr [(160, 180, 240, 270, 9 / 10)]"
proof -
  have s: "shape0 one_person = 84" by (simp add: one_person_def)
  have p: "is_person one_person CONF_THRESH 0"
    by (simp add: is_person_def one_person_def CONF_THRESH_def)
  have "[0..<shape1 one_person] = [0]" by (simp add: one_person_def)
  then have f: "filter (is_person one_person CONF_THRESH) [0..<shape1 one_person] = [0]"
    using p by simp
  have i: "item one_person 0 0 = 100" "item one_person 1 0 = 200" "item one_person 2 0 = 40"
    "item one_person 3 0 = 80" "item one_person 4 0 = 9 / 10"
    by (simp_all add: one_person_def)
  from decode_boxes [OF s, of "[]" 1280 720 CONF_THRESH, THEN conjunct1]
  have "decode_yolov11_persons [one_person] 1280 720 CONF_THRESH
          = nms [((100 - 40 / 2) * (real_of_int 1280 / 640), (200 - 80 / 2) * (real_of_int 720 / 640),
                  (100 + 40 / 2) * (real_of_int 1280 / 640), (200 + 80 / 2) * (real_of_int 720 / 640),
                  9 / 10)] IOU_THRESH"
    by (simp only: f i list.map)
  then show ?thesis by (simp add: nms_def sorted_desc_def)
qed

lemma best_class_tie_break:
  assumes "shape0 out = 84" "k < shape1 out"
  shows "\<exists>ids mxs. along_rows np_argmax (scores_T out) = Inr ids
     \<and> along_rows np_max (scores_T out) = Inr mxs
     \<and> ids ! k < 80
     \<and> (\<forall>c < 80. item out (4 + c) k \<le> item out (4 + ids ! k) k)
     \<and> (\<forall>c < ids ! k. item out (4 + c) k < item out (4 + ids ! k) k)
     \<and> ((\<forall>c < 80. item out (4 + c) k \<le> item out 4 k) \<longrightarrow> ids ! k = PERSON_CLASS_ID)
     \<and> (person_mask ids mxs conf ! k \<longleftrightarrow>
          (\<forall>c < 80. item out (4 + c) k \<le> item out 4 k) \<and> conf < item out 4 k)"
proof -
  let ?ks = "[0..<shape1 out]"
  let ?xs = "map (\<lambda>r. item out r k) [5..<shape0 out]"
  let ?row = "map (\<lambda>r. item out r k) [4..<shape0 out]"
  let ?id = "\<lambda>k. argmax_scan (map (\<lambda>r. item out r k) [5..<shape0 out]) 1 0 (item out 4 k)"
  let ?mx = "\<lambda>k. fold max (map (\<lambda>r. item out r k) [5..<shape0 out]) (item out 4 k)"
  have n: "4 < shape0 out" using assms(1) by simp
  have row: "?row = item out 4 k # ?xs" by (rule score_row [OF n])
  have len: "length ?row = 80" using assms(1) by (simp del: upt_rec_numeral)
  have nth: "?row ! c = item out (4 + c) k" if "c < 80" for c
    using that assms(1) by (simp del: upt_rec_numeral)
  have idk: "map ?id ?ks ! k = ?id k" using assms(2) by (simp del: upt_rec_numeral One_nat_def)
  from argmax_scan_first [of ?xs "item out 4 k"]
  have a1: "?id k < length ?row"
    and a2: "\<forall>j < length ?row. ?row ! j \<le> ?row ! ?id k"
    and a3: "\<forall>j < ?id k. ?row ! j < ?row ! ?id k"
    unfolding row by blast+
  have b1: "?id k < 80" using a1 by (simp only: len)
  have b2: "\<forall>c < 80. item out (4 + c) k \<le> item out (4 + ?id k) k"
  proof (intro allI impI)
    fix c :: nat assume c: "c < 80"
    then have "c < length ?row" by (simp only: len)
    with a2 have "?row ! c \<le> ?row ! ?id k" by blast
    then show "item out (4 + c) k \<le> item out (4 + ?id k) k"
      by (simp only: nth [OF c] nth [OF b1])
  qed
  have b3: "\<forall>c < ?id k. item out (4 + c) k < item out (4 + ?id k) k"
  proof (intro allI impI)
    fix c assume c: "c < ?id k"
    then have "c < 80" using b1 by simp
    from a3 c have "?row ! c < ?row ! ?id k" by blast
    then show "item out (4 + c) k < item out (4 + ?id k) k"
      by (simp only: nth [OF \<open>c < 80\<close>] nth [OF b1])
  qed
  have q: "(\<forall>r \<in> {4..<shape0 out}. item out r k \<le> item out 4 k)
             \<longleftrightarrow> (\<forall>c < 80. item out (4 + c) k \<le> item out 4 k)"
  proof
    assume h: "\<forall>r \<in> {4..<shape0 out}. item out r k \<le> item out 4 k"
    show "\<forall>c < 80. item out (4 + c) k \<le> item out 4 k"
    proof (intro allI impI)
      fix c :: nat assume "c < 80"
      then have "4 + c \<in> {4..<shape0 out}" using assms(1) by simp
      with h show "item out (4 + c) k \<le> item out 4 k" by blast
    qed
  next
    assume h: "\<forall>c < 80. item out (4 + c) k \<le> item out 4 k"
    show "\<forall>r \<in> {4..<shape0 out}. item out r k \<le> item out 4 k"
    proof
      fix r assume "r \<in> {4..<shape0 out}"
      then have "r - 4 < 80" "4 + (r - 4) = r" using assms(1) by auto
      with h show "item out r k \<le> item out 4 k" by metis
    qed
  qed
  have b4: "(\<forall>c < 80. item out (4 + c) k \<le> item out 4 k) \<longrightarrow> ?id k = PERSON_CLASS_ID"
  proof
    assume "\<forall>c < 80. item out (4 + c) k \<le> item out 4 k"
    then have "\<forall>r \<in> {4..<shape0 out}. item out r k \<le> item out 4 k" by (simp only: q)
    then have "\<forall>y \<in> set ?xs. y \<le> item out 4 k" by (simp only: le_person_iff [OF n])
    then show "?id k = PERSON_CLASS_ID"
      by (simp only: argmax_scan_zero_iff PERSON_CLASS_ID_def)
  qed
  have "person_mask (map ?id ?ks) (map ?mx ?ks) conf = map (is_person out conf) ?ks"
    by (simp only: person_mask_def map2_map_map mask_entry [OF n])
  then have "person_mask (map ?id ?ks) (map ?mx ?ks) conf ! k = is_person out conf k"
    using assms(2) by (simp del: upt_rec_numeral One_nat_def)
  then have b5: "person_mask (map ?id ?ks) (map ?mx ?ks) conf ! k \<longleftrightarrow>
          (\<forall>c < 80. item out (4 + c) k \<le> item out 4 k) \<and> conf < item out 4 k"
    by (simp only: is_person_def q)
  show ?thesis
  proof (intro exI conjI)
    show "along_rows np_argmax (scores_T out) = Inr (map ?id ?ks)"
      by (rule best_classes(1) [OF n])
    show "along_rows np_max (scores_T out) = Inr (map ?mx ?ks)"
      by (rule best_classes(2) [OF n])
    show "map ?id ?ks ! k < 80" by (simp only: idk b1)
    show "\<forall>c < 80. item out (4 + c) k \<le> item out (4 + map ?id ?ks ! k) k"
      using b2 by (simp only: idk)
    show "\<forall>c < map ?id ?ks ! k. item out (4 + c) k < item out (4 + map ?id ?ks ! k) k"
      using b3 by (simp only: idk)
    show "(\<forall>c < 80. item out (4 + c) k \<le> item out 4 k) \<longrightarrow> map ?id ?ks ! k = PERSON_CLASS_ID"
      using b4 by (simp only: idk)
    show "person_mask (map ?id ?ks) (map ?mx ?ks) conf ! k \<longleftrightarrow>
          (\<forall>c < 80. item out (4 + c) k \<le> item out 4 k) \<and> conf < item out 4 k"
      by (rule b5)
  qed
qed

lemma is_person_80:
  assumes "shape0 out = 84"
  shows "is_person out conf k \<longleftrightarrow> (\<forall>c < 80. item out (4 + c) k \<le> item out 4 k) \<and> conf < item out 4 k"
proof -
  have "(\<forall>r \<in> {4..<shape0 out}. item out r k \<le> item out 4 k)
             \<longleftrightarrow> (\<forall>c < 80. item out (4 + c) k \<le> item out 4 k)"
  proof
    assume h: "\<forall>r \<in> {4..<shape0 out}. item out r k \<le> item out 4 k"
    show "\<forall>c < 80. item out (4 + c) k \<le> item out 4 k"
    proof (intro allI impI)
      fix c :: nat assume "c < 80"
      then have "4 + c \<in> {4..<shape0 out}" using assms by simp
      with h show "item out (4 + c) k \<le> item out 4 k" by blast
    qed
  next
    assume h: "\<forall>c < 80. item out (4 + c) k \<le> item out 4 k"
    show "\<forall>r \<in> {4..<shape0 out}. item out r k \<le> item out 4 k"
    proof
      fix r assume "r \<in> {4..<shape0 out}"
      then have "r - 4 < 80" "4 + (r - 4) = r" using assms by auto
      with h show "item out r k \<le> item out 4 k" by metis
    qed
  qed
  then show ?thesis by (simp only: is_person_def)
qed

text \<open>
  C10. With 84 rows, the class chosen for anchor \<open>k\<close> is the lowest class index whose
  score is the maximum of the anchor's 80 class scores: every score is at most the
  chosen one and every score of a lower index is strictly below it. So an anchor
  whose person score (class 0, row 4) is not exceeded by any class score is classified
  as person, and the mask of line 155 is true at \<open>k\<close> exactly when that holds and the
  person score is above the confidence threshold. The decoder returns \<open>nms\<close> of the
  rescaled boxes of exactly the anchors for which that holds, in anchor order: a
  function of tensor and thresholds.
\<close>

theorem decoder_tie_break:
  assumes "shape0 out = 84" "k < shape1 out"
  shows "(\<exists>ids mxs. along_rows np_argmax (scores_T out) = Inr ids
     \<and> along_rows np_max (scores_T out) = Inr mxs
     \<and> ids ! k < 80
     \<and> (\<forall>c < 80. item out (4 + c) k \<le> item out (4 + ids ! k) k)
     \<and> (\<forall>c < ids ! k. item out (4 + c) k < item out (4 + ids ! k) k)
     \<and> ((\<forall>c < 80. item out (4 + c) k \<le> item out 4 k) \<longrightarrow> ids ! k = PERSON_CLASS_ID)
     \<and> (person_mask ids mxs conf ! k \<longleftrightarrow>
          (\<forall>c < 80. item out (4 + c) k \<le> item out 4 k) \<and> conf < item out 4 k))
   \<and> decode_yolov11_persons (out # rest) w h conf =
     nms (map (\<lambda>k. ((item out 0 k - item out 2 k / 2) * (real_of_int w / 640),
                    (item out 1 k - item out 3 k / 2) * (real_of_int h / 640),
                    (item out 0 k + item out 2 k / 2) * (real_of_int w / 640),
                    (item out 1 k + item out 3 k / 2) * (real_of_int h / 640),
                    item out 4 k))
            (filter (\<lambda>k. (\<forall>c < 80. item out (4 + c) k \<le> item out 4 k) \<and> conf < item out 4 k) [0..<shape1 out])) IOU_THRESH"
proof (rule conjI)
  show "\<exists>ids mxs. along_rows np_argmax (scores_T out) = Inr ids
     \<and> along_rows np_max (scores_T out) = Inr mxs
     \<and> ids ! k < 80
     \<and> (\<forall>c < 80. item out (4 + c) k \<le> item out (4 + ids ! k) k)
     \<and> (\<forall>c < ids ! k. item out (4 + c) k < item out (4 + ids ! k) k)
     \<and> ((\<forall>c < 80. item out (4 + c) k \<le> item out 4 k) \<longrightarrow> ids ! k = PERSON_CLASS_ID)
     \<and> (person_mask ids mxs conf ! k \<longleftrightarrow>
          (\<forall>c < 80. item out (4 + c) k \<le> item out 4 k) \<and> conf < item out 4 k)"
    by (rule best_class_tie_break [OF assms])
  have "is_person out conf = (\<lambda>k. (\<forall>c < 80. item out (4 + c) k \<le> item out 4 k) \<and> conf < item out 4 k)"
    by (rule ext) (rule is_person_80 [OF assms(1)])
  then show "decode_yolov11_persons (out # rest) w h conf =
     nms (map (\<lambda>k. ((item out 0 k - item out 2 k / 2) * (real_of_int w / 640),
                    (item out 1 k - item out 3 k / 2) * (real_of_int h / 640),
                    (item out 0 k + item out 2 k / 2) * (real_of_int w / 640),
                    (item out 1 k + item out 3 k / 2) * (real_of_int h / 640),
                    item out 4 k))
            (filter (\<lambda>k. (\<forall>c < 80. item out (4 + c) k \<le> item out 4 k) \<and> conf < item out 4 k) [0..<shape1 out])) IOU_THRESH"
    by (simp only: decode_84 [OF assms(1)])
qed

definition tied_scores :: ndarray2 where
  "tied_scores = \<lparr>shape0 = 84, shape1 = 1,
     item = (\<lambda>r k. if r = 4 \<or> r = 5 then 1 / 2 else 0)\<rparr>"

theorem decoder_tie_break_witness:
  "(\<exists>ids mxs. along_rows np_argmax (scores_T tied_scores) = Inr ids
     \<and> along_rows np_max (scores_T tied_scores) = Inr mxs
     \<and> ids ! 0 = PERSON_CLASS_ID
     \<and> person_mask ids mxs CONF_THRESH ! 0)
   \<and> item tied_scores 5 0 = item tied_scores 4 0
   \<and> decode_yolov11_persons [tied_scores] 1280 720 CONF_THRESH = Inr [(0, 0, 0, 0, 1 / 2)]"
proof -
  have s: "shape0 tied_scores = 84" and k: "0 < shape1 tied_scores"
    by (simp_all add: tied_scores_def)
  have le: "\<forall>c < 80. item tied_scores (4 + c) 0 \<le> item tied_scores 4 0"
    by (simp add: tied_scores_def)
  have gt: "CONF_THRESH < item tied_scores 4 0" by (simp add: tied_scores_def CONF_THRESH_def)
  have eq: "item tied_scores 5 0 = item tied_scores 4 0" by (simp add: tied_scores_def)
  from decoder_tie_break [OF s k, of CONF_THRESH "[]" 1280 720, THEN conjunct1] le gt
  have a: "\<exists>ids mxs. along_rows np_argmax (scores_T tied_scores) = Inr ids
     \<and> along_rows np_max (scores_T tied_scores) = Inr mxs
     \<and> ids ! 0 = PERSON_CLASS_ID
     \<and> person_mask ids mxs CONF_THRESH ! 0"
    by blast
  have "[0..<shape1 tied_scores] = [0]" by (simp add: tied_scores_def)
  then have f: "filter (\<lambda>k. (\<forall>c < 80. item tied_scores (4 + c) k \<le> item tied_scores 4 k)
                    \<and> CONF_THRESH < item tied_scores 4 k) [0..<shape1 tied_scores] = [0]"
    using le gt by simp
  have i: "item tied_scores 0 0 = 0" "item tied_scores 1 0 = 0" "item tied_scores 2 0 = 0"
    "item tied_scores 3 0 = 0" "item tied_scores 4 0 = 1 / 2"
    by (simp_all add: tied_scores_def)
  from decoder_tie_break [OF s k, of CONF_THRESH "[]" 1280 720, THEN conjunct2]
  have "decode_yolov11_persons [tied_scores] 1280 720 CONF_THRESH
          = nms [((0 - 0 / 2) * (real_of_int 1280 / 640), (0 - 0 / 2) * (real_of_int 720 / 640),
                  (0 + 0 / 2) * (real_of_int 1280 / 640), (0 + 0 / 2) * (real_of_int 720 / 640),
                  1 / 2)] IOU_THRESH"
    by (simp only: f i list.map)
  then have b: "decode_yolov11_persons [tied_scores] 1280 720 CONF_THRESH = Inr [(0, 0, 0, 0, 1 / 2)]"
    by (simp add: nms_def sorted_desc_def)
  from a eq b show ?thesis by blast
qed

subsection \<open>The frame loop of main: 3D coordinates and IDs (demo.py, lines 261-287)\<close>

text \<open>
  What one frame gives to the loop body: the size of the colour frame, the depth image
  (a two-dimensional array of unsigned 16-bit values), the depth scale of the sensor, and
  the deprojection \<open>rs.rs2_deproject_pixel_to_point\<close> at the intrinsics of the frame. The
  deprojection is a function of the camera library; it is a parameter here.
\<close>

record depth_array =
  rows :: nat
  cols :: nat
  raw :: "nat \<Rightarrow> nat \<Rightarrow> nat"

type_synonym point3 = "real \<times> real \<times> real"

record frame =
  orig_w :: int
  orig_h :: int
  depth_image :: depth_array
  depth_scale :: real
  deproject :: "int \<times> int \<Rightarrow> real \<Rightarrow> point3"

text \<open>An entry of \<open>person_boxes\<close>: \<open>[id, left, top, right, bottom, depth_m]\<close>.\<close>

type_synonym pbox = "int \<times> int \<times> int \<times> int \<times> int \<times> real"

text \<open>An entry of \<open>person_positions\<close>: \<open>(id, X, Y, Z)\<close>.\<close>

type_synonym ppos = "int \<times> real \<times> real \<times> real"

definition pid :: "pbox \<Rightarrow> int" where
  "pid b = (case b of (i, l, t, r, bt, d) \<Rightarrow> i)"

text \<open>Python's \<open>int()\<close> of a float truncates towards zero.\<close>

definition py_int :: "real \<Rightarrow> int" where
  "py_int x = (if 0 \<le> x then \<lfloor>x\<rfloor> else \<lceil>x\<rceil>)"

text \<open>
  \<open>a[i, j]\<close> on a two-dimensional numpy array with Python integers: a negative index
  counts from the end, an index out of range raises IndexError.
\<close>

definition np_index :: "nat \<Rightarrow> int \<Rightarrow> error + nat" where
  "np_index n i =
     (if 0 \<le> i \<and> i < int n then Inr (nat i)
      else if - int n \<le> i \<and> i < 0 then Inr (nat (int n + i))
      else Inl IndexError)"

definition depth_at :: "depth_array \<Rightarrow> int \<Rightarrow> int \<Rightarrow> error + nat" where
  "depth_at a i j =
     (case np_index (rows a) i of
        Inl e \<Rightarrow> Inl e
      | Inr r \<Rightarrow> (case np_index (cols a) j of Inl e \<Rightarrow> Inl e | Inr c \<Rightarrow> Inr (raw a r c)))"

text \<open>
  Lines 267-286: the body of the loop for one detection and the current \<open>id_counter\<close>;
  it gives the entries appended to \<open>person_positions\<close> and \<open>person_boxes\<close>.
\<close>

definition locate_one :: "frame \<Rightarrow> det \<Rightarrow> int \<Rightarrow> error + (ppos \<times> pbox)" where
  "locate_one f det id_counter =
     (case det of (left, top', right, bottom, sc) \<Rightarrow>
        let left_i = py_int (max 0 (min (real_of_int (orig_w f - 1)) left));
            top_i = py_int (max 0 (min (real_of_int (orig_h f - 1)) top'));
            right_i = py_int (max 0 (min (real_of_int (orig_w f - 1)) right));
            bottom_i = py_int (max 0 (min (real_of_int (orig_h f - 1)) bottom));
            cx = py_int (real_of_int (left_i + right_i) / 2);
            cy = py_int (real_of_int (top_i + bottom_i) / 2);
            cy = max 0 (min cy (int (rows (depth_image f)) - 1));
            cx = max 0 (min cx (int (cols (depth_image f)) - 1))
        in case depth_at (depth_image f) cy cx of
             Inl e \<Rightarrow> Inl e
           | Inr v \<Rightarrow>
               let depth_value = real v * depth_scale f
               in case deproject f (cx, cy) depth_value of (X, Y, Z) \<Rightarrow>
                    Inr ((id_counter, X, Y, Z),
                         (id_counter, left_i, top_i, right_i, bottom_i, depth_value)))"

text \<open>
  Lines 266-287: the loop over \<open>dets\<close>, with \<open>id_counter\<close>, \<open>person_positions\<close> and
  \<open>person_boxes\<close> as the state.
\<close>

fun locate :: "frame \<Rightarrow> det list \<Rightarrow> int \<Rightarrow> ppos list \<Rightarrow> pbox list
    \<Rightarrow> error + (ppos list \<times> pbox list)" where
  "locate f [] id_counter person_positions person_boxes = Inr (person_positions, person_boxes)"
| "locate f (det # dets) id_counter person_positions person_boxes =
     (case locate_one f det id_counter of
        Inl e \<Rightarrow> Inl e
      | Inr (p, b) \<Rightarrow>
          locate f dets (id_counter + 1) (person_positions @ [p]) (person_boxes @ [b]))"

text \<open>Lines 262-264: the state before the loop.\<close>

definition locate_persons :: "frame \<Rightarrow> det list \<Rightarrow> error + (ppos list \<times> pbox list)" where
  "locate_persons f dets = locate f dets 1 [] []"

subsection \<open>The frame loop of main: IoU and 3D merge (demo.py, lines 289-326)\<close>

definition box_of :: "pbox \<Rightarrow> box" where
  "box_of b = (case b of (i, l, t, r, bt, d) \<Rightarrow>
     (real_of_int l, real_of_int t, real_of_int r, real_of_int bt))"

definition xyz :: "ppos \<Rightarrow> point3" where
  "xyz p = (case p of (i, X, Y, Z) \<Rightarrow> (X, Y, Z))"

text \<open>\<open>np.linalg.norm\<close> of the difference of two points.\<close>

definition distance3d :: "point3 \<Rightarrow> point3 \<Rightarrow> real" where
  "distance3d p q = (case p of (X1, Y1, Z1) \<Rightarrow> case q of (X2, Y2, Z2) \<Rightarrow>
     sqrt ((X1 - X2)\<^sup>2 + (Y1 - Y2)\<^sup>2 + (Z1 - Z2)\<^sup>2))"

text \<open>Lines 314-318: the distance of the two box centres, in pixels.\<close>

definition center_dist :: "pbox \<Rightarrow> pbox \<Rightarrow> real" where
  "center_dist p q =
     (case p of (pid1, l1, t1, r1, b1, d1) \<Rightarrow> case q of (pid2, l2, t2, r2, b2, d2) \<Rightarrow>
        let cx1 = real_of_int (l1 + r1) * (1 / 2);
            cy1 = real_of_int (t1 + b1) * (1 / 2);
            cx2 = real_of_int (l2 + r2) * (1 / 2);
            cy2 = real_of_int (t2 + b2) * (1 / 2)
        in sqrt ((cx1 - cx2)\<^sup>2 + (cy1 - cy2)\<^sup>2))"

text \<open>A list read \<open>xs[i]\<close> with \<open>i\<close> from a \<open>range\<close>: IndexError beyond the end.\<close>

definition get :: "'a list \<Rightarrow> nat \<Rightarrow> error + 'a" where
  "get xs i = (if i < length xs then Inr (xs ! i) else Inl IndexError)"

text \<open>Lines 305-321: the body of the inner loop up to the merge test.\<close>

definition merge_test :: "pbox list \<Rightarrow> ppos list \<Rightarrow> nat \<Rightarrow> nat \<Rightarrow> error + bool" where
  "merge_test person_boxes person_positions i j =
     (case get person_boxes i of Inl e \<Rightarrow> Inl e | Inr b1 \<Rightarrow>
      case get person_positions i of Inl e \<Rightarrow> Inl e | Inr p1 \<Rightarrow>
      case get person_boxes j of Inl e \<Rightarrow> Inl e | Inr b2 \<Rightarrow>
      case get person_positions j of Inl e \<Rightarrow> Inl e | Inr p2 \<Rightarrow>
      case compute_iou (box_of b1) (box_of b2) of Inl e \<Rightarrow> Inl e | Inr v \<Rightarrow>
        let dist3d = distance3d (xyz p1) (xyz p2);
            pixel_dist = center_dist b1 b2
        in Inr ((25 / 100 < v \<and> dist3d < 35 / 100) \<or> pixel_dist < 140))"

text \<open>Lines 301-322: the inner loop over \<open>j\<close>, with \<open>skip\<close> as the state.\<close>

fun merge_inner :: "pbox list \<Rightarrow> ppos list \<Rightarrow> nat \<Rightarrow> nat list \<Rightarrow> nat set \<Rightarrow> error + nat set" where
  "merge_inner pb pp i [] skip = Inr skip"
| "merge_inner pb pp i (j # js) skip =
     (if j \<in> skip then merge_inner pb pp i js skip
      else case merge_test pb pp i j of
             Inl e \<Rightarrow> Inl e
           | Inr c \<Rightarrow> merge_inner pb pp i js (if c then insert j skip else skip))"

text \<open>Lines 293-324: the outer loop over \<open>i\<close>, with \<open>skip\<close> and \<open>merged\<close> as the state.\<close>

fun merge_outer :: "pbox list \<Rightarrow> ppos list \<Rightarrow> nat list \<Rightarrow> nat set \<Rightarrow> pbox list
    \<Rightarrow> error + pbox list" where
  "merge_outer pb pp [] skip merged = Inr merged"
| "merge_outer pb pp (i # is) skip merged =
     (if i \<in> skip then merge_outer pb pp is skip merged
      else case merge_inner pb pp i [i + 1..<length pb] skip of
             Inl e \<Rightarrow> Inl e
           | Inr skip' \<Rightarrow>
               (case get pb i of
                  Inl e \<Rightarrow> Inl e
                | Inr b \<Rightarrow> merge_outer pb pp is skip' (merged @ [b])))"

definition merge_persons :: "pbox list \<Rightarrow> ppos list \<Rightarrow> error + pbox list" where
  "merge_persons person_boxes person_positions =
     merge_outer person_boxes person_positions [0..<length person_boxes] {} []"

subsection \<open>The frame loop of main: distances between persons (demo.py, lines 328-349)\<close>

text \<open>Lines 336-345: the distance of two persons, deprojected from their box centres.\<close>

definition person_dist :: "(int \<times> int \<Rightarrow> real \<Rightarrow> point3) \<Rightarrow> pbox \<Rightarrow> pbox \<Rightarrow> real" where
  "person_dist dep p q =
     (case p of (pid1, l1, t1, r1, b1, d1) \<Rightarrow> case q of (pid2, l2, t2, r2, b2, d2) \<Rightarrow>
        distance3d (dep ((l1 + r1) div 2, (t1 + b1) div 2) d1)
                   (dep ((l2 + r2) div 2, (t2 + b2) div 2) d2))"

text \<open>An entry of \<open>close_pairs\<close>: \<open>(pid1, pid2, dist3)\<close>.\<close>

type_synonym alert = "int \<times> int \<times> real"

text \<open>
  Lines 331-349: the inner loop over \<open>j\<close>. Both indices come from
  \<open>range(len(person_boxes))\<close>, so the list reads are in range.
\<close>

fun pairs_inner :: "(int \<times> int \<Rightarrow> real \<Rightarrow> point3) \<Rightarrow> pbox list \<Rightarrow> nat \<Rightarrow> nat list
    \<Rightarrow> alert list \<Rightarrow> alert list" where
  "pairs_inner dep pb i [] close_pairs = close_pairs"
| "pairs_inner dep pb i (j # js) close_pairs =
     (let dist3 = person_dist dep (pb ! i) (pb ! j)
      in pairs_inner dep pb i js
           (if dist3 < 8 / 10 then close_pairs @ [(pid (pb ! i), pid (pb ! j), dist3)]
            else close_pairs))"

fun pairs_outer :: "(int \<times> int \<Rightarrow> real \<Rightarrow> point3) \<Rightarrow> pbox list \<Rightarrow> nat list
    \<Rightarrow> alert list \<Rightarrow> alert list" where
  "pairs_outer dep pb [] close_pairs = close_pairs"
| "pairs_outer dep pb (i # is) close_pairs =
     pairs_outer dep pb is (pairs_inner dep pb i [i + 1..<length pb] close_pairs)"

definition close_pairs :: "(int \<times> int \<Rightarrow> real \<Rightarrow> point3) \<Rightarrow> pbox list \<Rightarrow> alert list" where
  "close_pairs dep person_boxes = pairs_outer dep person_boxes [0..<length person_boxes] []"


subsection \<open>The merge rule and the index pairs, as the specification words them\<close>

text \<open>
  Candidate \<open>j\<close> duplicates candidate \<open>i\<close>: the boxes overlap with IoU above 0.25 and
  the 3D points are closer than 0.35 m, or the box centres are closer than 140 pixels.
\<close>

definition merge_rule :: "pbox \<Rightarrow> ppos \<Rightarrow> pbox \<Rightarrow> ppos \<Rightarrow> bool" where
  "merge_rule b1 p1 b2 p2 =
     ((25 / 100 < iou (box_of b1) (box_of b2) \<and> distance3d (xyz p1) (xyz p2) < 35 / 100)
      \<or> center_dist b1 b2 < 140)"

text \<open>All pairs \<open>(i, j)\<close> with \<open>i < j < n\<close>, ascending.\<close>

definition index_pairs :: "nat \<Rightarrow> (nat \<times> nat) list" where
  "index_pairs n = concat (map (\<lambda>i. map (\<lambda>j. (i, j)) [i + 1..<n]) [0..<n])"

subsection \<open>Facts about the merge\<close>

lemma area_int: "\<exists>k::int. area (box_of b) = real_of_int k"
proof -
  obtain i l t r bt d where b: "b = (i, l, t, r, bt, d)" by (cases b)
  have "area (box_of b) = real_of_int ((r - l) * (bt - t))"
    by (simp add: b box_of_def area_def)
  then show ?thesis by blast
qed

lemma interArea_int: "\<exists>k::int. interArea (box_of a) (box_of b) = real_of_int k"
proof -
  obtain i l t r bt d where a: "a = (i, l, t, r, bt, d)" by (cases a)
  obtain i' l' t' r' bt' d' where b: "b = (i', l', t', r', bt', d')" by (cases b)
  have "interArea (box_of a) (box_of b)
      = real_of_int (max 0 (min r r' - max l l') * max 0 (min bt bt' - max t t'))"
    by (simp add: a b box_of_def interArea_def Let_def of_int_max of_int_min)
  then show ?thesis by blast
qed

lemma iou_denom_int: "iou_denom (box_of a) (box_of b) \<noteq> 0"
proof
  assume z: "iou_denom (box_of a) (box_of b) = 0"
  obtain k1 :: int where k1: "area (box_of a) = real_of_int k1" using area_int by blast
  obtain k2 :: int where k2: "area (box_of b) = real_of_int k2" using area_int by blast
  obtain k3 :: int where k3: "interArea (box_of a) (box_of b) = real_of_int k3"
    using interArea_int by blast
  from z have "real_of_int (k1 + k2 - k3) * 1000000 = real_of_int (- 1)"
    by (simp add: iou_denom_def k1 k2 k3)
  then have "real_of_int ((k1 + k2 - k3) * 1000000) = real_of_int (- 1)" by simp
  then have "(k1 + k2 - k3) * 1000000 = - 1" by (simp only: of_int_eq_iff)
  then have "(1000000::int) dvd - 1" using dvd_triv_right [of 1000000 "k1 + k2 - k3"] by simp
  then show False by simp
qed

lemma compute_iou_int: "compute_iou (box_of a) (box_of b) = Inr (iou (box_of a) (box_of b))"
  by (simp add: compute_iou_def iou_def iou_denom_int)

lemma merge_test_ok:
  assumes "length pp = length pb" "i < length pb" "j < length pb"
  shows "merge_test pb pp i j = Inr (merge_rule (pb ! i) (pp ! i) (pb ! j) (pp ! j))"
  using assms by (simp add: merge_test_def get_def compute_iou_int merge_rule_def Let_def)

lemma merge_inner_ok:
  assumes "length pp = length pb" "i < length pb" "\<forall>j \<in> set js. j < length pb"
  shows "merge_inner pb pp i js S
     = Inr (S \<union> {j \<in> set js. j \<notin> S \<and> merge_rule (pb ! i) (pp ! i) (pb ! j) (pp ! j)})"
  using assms(3)
proof (induction js arbitrary: S)
  case Nil
  then show ?case by simp
next
  case (Cons j js)
  let ?dup = "\<lambda>j. merge_rule (pb ! i) (pp ! i) (pb ! j) (pp ! j)"
  from Cons.prems have j: "j < length pb" and js: "\<forall>j \<in> set js. j < length pb" by simp_all
  have ih: "merge_inner pb pp i js T = Inr (T \<union> {j \<in> set js. j \<notin> T \<and> ?dup j})" for T
    by (rule Cons.IH [OF js])
  have t: "merge_test pb pp i j = Inr (?dup j)"
    by (rule merge_test_ok [OF assms(1,2) j])
  show ?case
  proof (cases "j \<in> S")
    case True
    then have "S \<union> {k \<in> set (j # js). k \<notin> S \<and> ?dup k} = S \<union> {k \<in> set js. k \<notin> S \<and> ?dup k}"
      by auto
    then show ?thesis using True by (simp add: ih)
  next
    case False
    show ?thesis
    proof (cases "?dup j")
      case True
      have "insert j S \<union> {k \<in> set js. k \<notin> insert j S \<and> ?dup k}
          = S \<union> {k \<in> set (j # js). k \<notin> S \<and> ?dup k}"
        using True False by auto
      then show ?thesis using True False by (simp add: ih t)
    next
      case d: False
      have "S \<union> {k \<in> set js. k \<notin> S \<and> ?dup k} = S \<union> {k \<in> set (j # js). k \<notin> S \<and> ?dup k}"
        using d by auto
      then show ?thesis using d False by (simp add: ih t)
    qed
  qed
qed

text \<open>The set \<open>skip\<close> after the anchors of \<open>is\<close>, and the survivors among \<open>is\<close>.\<close>

definition absorb :: "pbox list \<Rightarrow> ppos list \<Rightarrow> nat \<Rightarrow> nat set \<Rightarrow> nat set" where
  "absorb pb pp i S =
     S \<union> {j. i < j \<and> j < length pb \<and> j \<notin> S \<and> merge_rule (pb ! i) (pp ! i) (pb ! j) (pp ! j)}"

fun skipped :: "pbox list \<Rightarrow> ppos list \<Rightarrow> nat list \<Rightarrow> nat set \<Rightarrow> nat set" where
  "skipped pb pp [] S = S"
| "skipped pb pp (i # is) S =
     (if i \<in> S then skipped pb pp is S else skipped pb pp is (absorb pb pp i S))"

lemma merge_inner_absorb:
  assumes "length pp = length pb" "i < length pb"
  shows "merge_inner pb pp i [i + 1..<length pb] S = Inr (absorb pb pp i S)"
proof -
  have "merge_inner pb pp i [i + 1..<length pb] S
     = Inr (S \<union> {j \<in> set [i + 1..<length pb]. j \<notin> S \<and> merge_rule (pb ! i) (pp ! i) (pb ! j) (pp ! j)})"
    by (rule merge_inner_ok [OF assms]) simp
  moreover have "{j \<in> set [i + 1..<length pb]. j \<notin> S \<and> merge_rule (pb ! i) (pp ! i) (pb ! j) (pp ! j)}
     = {j. i < j \<and> j < length pb \<and> j \<notin> S \<and> merge_rule (pb ! i) (pp ! i) (pb ! j) (pp ! j)}"
    by auto
  ultimately show ?thesis by (simp add: absorb_def)
qed

lemma absorb_below: "k \<le> i \<Longrightarrow> k \<in> absorb pb pp i S \<longleftrightarrow> k \<in> S"
  by (auto simp: absorb_def)

lemma skipped_below:
  "k < a \<Longrightarrow> k \<in> skipped pb pp [a..<n] S \<longleftrightarrow> k \<in> S"
proof (induction "n - a" arbitrary: a S)
  case 0
  then show ?case by simp
next
  case (Suc m)
  then have lt: "a < n" and m: "m = n - Suc a" by simp_all
  have u: "[a..<n] = a # [Suc a..<n]" using lt by (rule upt_conv_Cons)
  have ka: "k < Suc a" using Suc.prems by simp
  show ?case
  proof (cases "a \<in> S")
    case True
    then show ?thesis using Suc.hyps(1) [OF m ka, of S] by (simp add: u)
  next
    case False
    have "k \<in> skipped pb pp [Suc a..<n] (absorb pb pp a S) \<longleftrightarrow> k \<in> absorb pb pp a S"
      by (rule Suc.hyps(1) [OF m ka])
    also have "\<dots> \<longleftrightarrow> k \<in> S" using Suc.prems by (simp add: absorb_below)
    finally show ?thesis using False by (simp add: u)
  qed
qed

lemma merge_outer_ok:
  assumes "length pp = length pb"
  shows "merge_outer pb pp [a..<length pb] S M
     = Inr (M @ map (\<lambda>i. pb ! i) (filter (\<lambda>i. i \<notin> skipped pb pp [a..<length pb] S) [a..<length pb]))"
proof (induction "length pb - a" arbitrary: a S M)
  case 0
  then show ?case by simp
next
  case (Suc m)
  let ?n = "length pb"
  from Suc.hyps(2) have lt: "a < ?n" and m: "m = ?n - Suc a" by simp_all
  have u: "[a..<?n] = a # [Suc a..<?n]" using lt by (rule upt_conv_Cons)
  show ?case
  proof (cases "a \<in> S")
    case True
    have "a \<in> skipped pb pp [Suc a..<?n] S" using True by (simp add: skipped_below)
    then show ?thesis using True Suc.hyps(1) [OF m, of S M] by (simp add: u)
  next
    case False
    let ?S = "absorb pb pp a S"
    have "a \<notin> ?S" using False by (simp add: absorb_below)
    then have na: "a \<notin> skipped pb pp [Suc a..<?n] ?S" by (simp add: skipped_below)
    have inner: "merge_inner pb pp a [Suc a..<?n] S = Inr ?S"
      using merge_inner_absorb [OF assms lt, of S] by simp
    have g: "get pb a = Inr (pb ! a)" using lt by (simp add: get_def)
    show ?thesis
      using False na Suc.hyps(1) [OF m, of ?S "M @ [pb ! a]"]
      by (simp add: u inner g del: upt_Suc)
  qed
qed

text \<open>
  The invariant of the outer loop before anchor \<open>a\<close>: an index is in \<open>skip\<close> exactly
  when an earlier surviving anchor below \<open>a\<close> absorbed it.
\<close>

definition skip_inv :: "pbox list \<Rightarrow> ppos list \<Rightarrow> nat \<Rightarrow> nat set \<Rightarrow> bool" where
  "skip_inv pb pp a S =
     (\<forall>j < length pb. j \<in> S \<longleftrightarrow>
        (\<exists>i. i < a \<and> i < j \<and> i \<notin> S \<and> merge_rule (pb ! i) (pp ! i) (pb ! j) (pp ! j)))"

lemma skip_inv_step_in:
  assumes "skip_inv pb pp a S" "a \<in> S"
  shows "skip_inv pb pp (Suc a) S"
  unfolding skip_inv_def
proof (intro allI impI)
  fix j assume j: "j < length pb"
  from assms(1) j have e: "j \<in> S \<longleftrightarrow>
        (\<exists>i. i < a \<and> i < j \<and> i \<notin> S \<and> merge_rule (pb ! i) (pp ! i) (pb ! j) (pp ! j))"
    by (simp add: skip_inv_def)
  show "j \<in> S \<longleftrightarrow>
        (\<exists>i. i < Suc a \<and> i < j \<and> i \<notin> S \<and> merge_rule (pb ! i) (pp ! i) (pb ! j) (pp ! j))"
    unfolding e using assms(2) by (metis less_Suc_eq)
qed

lemma skip_inv_step_out:
  assumes "skip_inv pb pp a S" "a \<notin> S"
  shows "skip_inv pb pp (Suc a) (absorb pb pp a S)"
  unfolding skip_inv_def
proof (intro allI impI)
  fix j assume j: "j < length pb"
  let ?dup = "\<lambda>i j. merge_rule (pb ! i) (pp ! i) (pb ! j) (pp ! j)"
  from assms(1) j have e: "j \<in> S \<longleftrightarrow> (\<exists>i. i < a \<and> i < j \<and> i \<notin> S \<and> ?dup i j)"
    by (simp add: skip_inv_def)
  have b: "i \<in> absorb pb pp a S \<longleftrightarrow> i \<in> S" if "i < Suc a" for i
    using that by (simp add: absorb_below)
  show "j \<in> absorb pb pp a S \<longleftrightarrow>
        (\<exists>i. i < Suc a \<and> i < j \<and> i \<notin> absorb pb pp a S \<and> ?dup i j)"
  proof
    assume "j \<in> absorb pb pp a S"
    then consider "j \<in> S" | "a < j" "j \<notin> S" "?dup a j" by (auto simp: absorb_def)
    then show "\<exists>i. i < Suc a \<and> i < j \<and> i \<notin> absorb pb pp a S \<and> ?dup i j"
    proof cases
      case 1
      with e obtain i where i: "i < a" "i < j" "i \<notin> S" "?dup i j" by blast
      then have "i < Suc a" "i \<notin> absorb pb pp a S" using b [of i] by simp_all
      with i show ?thesis by blast
    next
      case 2
      have "a < Suc a" "a \<notin> absorb pb pp a S" using b [of a] assms(2) by simp_all
      with 2 show ?thesis by blast
    qed
  next
    assume "\<exists>i. i < Suc a \<and> i < j \<and> i \<notin> absorb pb pp a S \<and> ?dup i j"
    then obtain i where i: "i < Suc a" "i < j" "i \<notin> absorb pb pp a S" "?dup i j" by blast
    then have iS: "i \<notin> S" using b [of i] by simp
    show "j \<in> absorb pb pp a S"
    proof (cases "i = a")
      case True
      then show ?thesis using i j by (auto simp: absorb_def)
    next
      case False
      then have "i < a" using i(1) by simp
      then have "j \<in> S" using e i(2,4) iS by blast
      then show ?thesis by (simp add: absorb_def)
    qed
  qed
qed

lemma skip_inv_final:
  "a \<le> length pb \<Longrightarrow> skip_inv pb pp a S
     \<Longrightarrow> skip_inv pb pp (length pb) (skipped pb pp [a..<length pb] S)"
proof (induction "length pb - a" arbitrary: a S)
  case 0
  then show ?case by simp
next
  case (Suc m)
  let ?n = "length pb"
  from Suc.hyps(2) have lt: "a < ?n" and m: "m = ?n - Suc a" by simp_all
  have u: "[a..<?n] = a # [Suc a..<?n]" using lt by (rule upt_conv_Cons)
  have le: "Suc a \<le> ?n" using lt by simp
  show ?case
  proof (cases "a \<in> S")
    case True
    have "skip_inv pb pp ?n (skipped pb pp [Suc a..<?n] S)"
      by (rule Suc.hyps(1) [OF m le skip_inv_step_in [OF Suc.prems(2) True]])
    then show ?thesis using True by (simp add: u)
  next
    case False
    have "skip_inv pb pp ?n (skipped pb pp [Suc a..<?n] (absorb pb pp a S))"
      by (rule Suc.hyps(1) [OF m le skip_inv_step_out [OF Suc.prems(2) False]])
    then show ?thesis using False by (simp add: u)
  qed
qed

lemma merge_persons_skip:
  assumes "length person_positions = length person_boxes"
  shows "\<exists>skip. merge_persons person_boxes person_positions
        = Inr (map (\<lambda>i. person_boxes ! i) (filter (\<lambda>i. i \<notin> skip) [0..<length person_boxes]))
     \<and> (\<forall>j < length person_boxes. j \<in> skip \<longleftrightarrow>
          (\<exists>i < j. i \<notin> skip \<and>
             merge_rule (person_boxes ! i) (person_positions ! i)
                        (person_boxes ! j) (person_positions ! j)))"
proof -
  let ?n = "length person_boxes"
  let ?skip = "skipped person_boxes person_positions [0..<?n] {}"
  have r: "merge_persons person_boxes person_positions
        = Inr (map (\<lambda>i. person_boxes ! i) (filter (\<lambda>i. i \<notin> ?skip) [0..<?n]))"
    using merge_outer_ok [OF assms, of 0 "{}" "[]"] by (simp add: merge_persons_def)
  have "skip_inv person_boxes person_positions 0 {}" by (simp add: skip_inv_def)
  then have "skip_inv person_boxes person_positions ?n ?skip"
    by (rule skip_inv_final [OF le0])
  then have v: "\<forall>j < ?n. j \<in> ?skip \<longleftrightarrow>
          (\<exists>i. i < ?n \<and> i < j \<and> i \<notin> ?skip \<and>
             merge_rule (person_boxes ! i) (person_positions ! i)
                        (person_boxes ! j) (person_positions ! j))"
    by (simp only: skip_inv_def)
  have c: "\<forall>j < ?n. j \<in> ?skip \<longleftrightarrow>
          (\<exists>i < j. i \<notin> ?skip \<and>
             merge_rule (person_boxes ! i) (person_positions ! i)
                        (person_boxes ! j) (person_positions ! j))"
  proof (intro allI impI)
    fix j assume j: "j < ?n"
    have "(\<exists>i. i < ?n \<and> i < j \<and> i \<notin> ?skip \<and>
             merge_rule (person_boxes ! i) (person_positions ! i)
                        (person_boxes ! j) (person_positions ! j))
       \<longleftrightarrow> (\<exists>i < j. i \<notin> ?skip \<and>
             merge_rule (person_boxes ! i) (person_positions ! i)
                        (person_boxes ! j) (person_positions ! j))"
      using j by (auto intro: less_trans)
    with v j show "j \<in> ?skip \<longleftrightarrow>
          (\<exists>i < j. i \<notin> ?skip \<and>
             merge_rule (person_boxes ! i) (person_positions ! i)
                        (person_boxes ! j) (person_positions ! j))"
      by simp
  qed
  from r c show ?thesis by blast
qed


lemma sqrt_less_iff_square: "0 \<le> c \<Longrightarrow> sqrt x < c \<longleftrightarrow> x < c\<^sup>2"
proof -
  assume c: "0 \<le> c"
  have "sqrt x < c \<longleftrightarrow> sqrt x < sqrt (c\<^sup>2)" using c by simp
  also have "\<dots> \<longleftrightarrow> x < c\<^sup>2" by (rule real_sqrt_less_iff)
  finally show ?thesis .
qed

lemma merge_rule_explicit:
  "merge_rule (pid1, l1, t1, r1, b1, d1) (id1, X1, Y1, Z1) (pid2, l2, t2, r2, b2, d2) (id2, X2, Y2, Z2)
   \<longleftrightarrow>
     ((case compute_iou (real_of_int l1, real_of_int t1, real_of_int r1, real_of_int b1)
                        (real_of_int l2, real_of_int t2, real_of_int r2, real_of_int b2) of
         Inl e \<Rightarrow> False
       | Inr v \<Rightarrow> 25 / 100 < v)
      \<and> sqrt ((X1 - X2)\<^sup>2 + (Y1 - Y2)\<^sup>2 + (Z1 - Z2)\<^sup>2) < 35 / 100)
     \<or> sqrt ((real_of_int (l1 + r1) / 2 - real_of_int (l2 + r2) / 2)\<^sup>2
             + (real_of_int (t1 + b1) / 2 - real_of_int (t2 + b2) / 2)\<^sup>2) < 140"
  using compute_iou_int [of "(pid1, l1, t1, r1, b1, d1)" "(pid2, l2, t2, r2, b2, d2)"]
  by (simp add: merge_rule_def box_of_def xyz_def distance3d_def center_dist_def Let_def)

text \<open>
  C1. Let \<open>person_boxes\<close> and \<open>person_positions\<close> have the same length \<open>n\<close>. The merge
  returns, without raising, the boxes at the indices outside a set \<open>skip\<close>, in their
  original order, where for every \<open>j < n\<close>: \<open>j\<close> is in \<open>skip\<close> exactly when some earlier
  index \<open>i < j\<close> that is itself not in \<open>skip\<close> satisfies the merge rule with \<open>j\<close>:
  \<open>compute_iou\<close> of the two boxes is above 0.25 and the Euclidean distance of the two
  3D positions is below 0.35, or the Euclidean distance of the two box centres
  \<open>((l + r) / 2, (t + b) / 2)\<close> is below 140. A skipped index absorbs nothing.
\<close>

theorem merge_persons_rule:
  assumes "length person_positions = length person_boxes"
  shows "\<exists>skip. merge_persons person_boxes person_positions
        = Inr (map (\<lambda>i. person_boxes ! i) (filter (\<lambda>i. i \<notin> skip) [0..<length person_boxes]))
     \<and> (\<forall>j < length person_boxes. j \<in> skip \<longleftrightarrow>
          (\<exists>i < j. i \<notin> skip \<and>
             (case person_boxes ! i of (pid1, l1, t1, r1, b1, d1) \<Rightarrow>
              case person_positions ! i of (id1, X1, Y1, Z1) \<Rightarrow>
              case person_boxes ! j of (pid2, l2, t2, r2, b2, d2) \<Rightarrow>
              case person_positions ! j of (id2, X2, Y2, Z2) \<Rightarrow>
                ((case compute_iou (real_of_int l1, real_of_int t1, real_of_int r1, real_of_int b1)
                                   (real_of_int l2, real_of_int t2, real_of_int r2, real_of_int b2) of
                    Inl e \<Rightarrow> False
                  | Inr v \<Rightarrow> 25 / 100 < v)
                 \<and> sqrt ((X1 - X2)\<^sup>2 + (Y1 - Y2)\<^sup>2 + (Z1 - Z2)\<^sup>2) < 35 / 100)
                \<or> sqrt ((real_of_int (l1 + r1) / 2 - real_of_int (l2 + r2) / 2)\<^sup>2
                        + (real_of_int (t1 + b1) / 2 - real_of_int (t2 + b2) / 2)\<^sup>2) < 140)))"
proof -
  have e: "merge_rule (person_boxes ! i) (person_positions ! i)
                      (person_boxes ! j) (person_positions ! j)
           \<longleftrightarrow>
             (case person_boxes ! i of (pid1, l1, t1, r1, b1, d1) \<Rightarrow>
              case person_positions ! i of (id1, X1, Y1, Z1) \<Rightarrow>
              case person_boxes ! j of (pid2, l2, t2, r2, b2, d2) \<Rightarrow>
              case person_positions ! j of (id2, X2, Y2, Z2) \<Rightarrow>
                ((case compute_iou (real_of_int l1, real_of_int t1, real_of_int r1, real_of_int b1)
                                   (real_of_int l2, real_of_int t2, real_of_int r2, real_of_int b2) of
                    Inl e \<Rightarrow> False
                  | Inr v \<Rightarrow> 25 / 100 < v)
                 \<and> sqrt ((X1 - X2)\<^sup>2 + (Y1 - Y2)\<^sup>2 + (Z1 - Z2)\<^sup>2) < 35 / 100)
                \<or> sqrt ((real_of_int (l1 + r1) / 2 - real_of_int (l2 + r2) / 2)\<^sup>2
                        + (real_of_int (t1 + b1) / 2 - real_of_int (t2 + b2) / 2)\<^sup>2) < 140)" for i j
    by (cases "person_boxes ! i"; cases "person_positions ! i";
        cases "person_boxes ! j"; cases "person_positions ! j")
       (simp only: merge_rule_explicit prod.case)
  from merge_persons_skip [OF assms] show ?thesis by (simp only: e)
qed

definition three_boxes :: "pbox list" where
  "three_boxes = [(1, 0, 0, 800, 400, 2), (2, 200, 0, 1000, 400, 2), (3, 400, 0, 1200, 400, 2)]"

definition three_positions :: "ppos list" where
  "three_positions = [(1, 0, 0, 2), (2, 1 / 10, 0, 2), (3, 4 / 10, 0, 2)]"

text \<open>
  Three overlapping boxes whose centres are 200 pixels apart, so the 3D distance
  decides: candidate 1 is 0.1 m from candidate 0 and is absorbed; candidate 2 is 0.4 m
  from candidate 0 and survives, although it is 0.3 m from the absorbed candidate 1.
\<close>

theorem merge_persons_rule_witness:
  "merge_persons three_boxes three_positions
     = Inr [(1, 0, 0, 800, 400, 2), (3, 400, 0, 1200, 400, 2)]"
proof -
  define dup where "dup = (\<lambda>i j.
     (case three_boxes ! i of (pid1, l1, t1, r1, b1, d1) \<Rightarrow>
              case three_positions ! i of (id1, X1, Y1, Z1) \<Rightarrow>
              case three_boxes ! j of (pid2, l2, t2, r2, b2, d2) \<Rightarrow>
              case three_positions ! j of (id2, X2, Y2, Z2) \<Rightarrow>
                ((case compute_iou (real_of_int l1, real_of_int t1, real_of_int r1, real_of_int b1)
                                   (real_of_int l2, real_of_int t2, real_of_int r2, real_of_int b2) of
                    Inl e \<Rightarrow> False
                  | Inr v \<Rightarrow> 25 / 100 < v)
                 \<and> sqrt ((X1 - X2)\<^sup>2 + (Y1 - Y2)\<^sup>2 + (Z1 - Z2)\<^sup>2) < 35 / 100)
                \<or> sqrt ((real_of_int (l1 + r1) / 2 - real_of_int (l2 + r2) / 2)\<^sup>2
                        + (real_of_int (t1 + b1) / 2 - real_of_int (t2 + b2) / 2)\<^sup>2) < 140))"
  have len: "length three_positions = length three_boxes"
    by (simp add: three_boxes_def three_positions_def)
  have n: "length three_boxes = 3" by (simp add: three_boxes_def)
  have d01: "dup 0 1"
    unfolding dup_def
    by (simp add: three_boxes_def three_positions_def compute_iou_def iou_denom_def
        interArea_def area_def sqrt_less_iff_square)
  have d02: "\<not> dup 0 2"
    unfolding dup_def
    by (simp add: three_boxes_def three_positions_def compute_iou_def iou_denom_def
        interArea_def area_def sqrt_less_iff_square)
  from merge_persons_rule [OF len] obtain skip where
    rc: "merge_persons three_boxes three_positions
        = Inr (map (\<lambda>i. three_boxes ! i) (filter (\<lambda>i. i \<notin> skip) [0..<length three_boxes]))
      \<and> (\<forall>j < length three_boxes. j \<in> skip \<longleftrightarrow> (\<exists>i < j. i \<notin> skip \<and> dup i j))"
    unfolding dup_def by (rule exE)
  have r: "merge_persons three_boxes three_positions
        = Inr (map (\<lambda>i. three_boxes ! i) (filter (\<lambda>i. i \<notin> skip) [0..<length three_boxes]))"
    by (rule conjunct1 [OF rc])
  have c: "\<forall>j < length three_boxes. j \<in> skip \<longleftrightarrow> (\<exists>i < j. i \<notin> skip \<and> dup i j)"
    by (rule conjunct2 [OF rc])
  have l: "0 < length three_boxes" "1 < length three_boxes" "2 < length three_boxes"
    by (simp_all add: n)
  from c l(1) have "0 \<in> skip \<longleftrightarrow> (\<exists>i < 0. i \<notin> skip \<and> dup i 0)" by blast
  then have s0: "0 \<notin> skip" by simp
  from c l(2) have c1: "1 \<in> skip \<longleftrightarrow> (\<exists>i < 1. i \<notin> skip \<and> dup i 1)" by blast
  have "\<exists>i < 1. i \<notin> skip \<and> dup i 1"
    using s0 d01 zero_less_one [where 'a = nat] by blast
  with c1 have s1: "1 \<in> skip" by blast
  from c l(3) have c2: "2 \<in> skip \<longleftrightarrow> (\<exists>i < 2. i \<notin> skip \<and> dup i 2)" by blast
  have "\<not> (\<exists>i < 2. i \<notin> skip \<and> dup i 2)"
  proof
    assume "\<exists>i < 2. i \<notin> skip \<and> dup i 2"
    then obtain i where i: "i < 2" "i \<notin> skip" "dup i 2" by blast
    from i(1) have "i = 0 \<or> i = 1" by auto
    then show False
    proof (elim disjE)
      assume "i = 0"
      with i(3) d02 show False by blast
    next
      assume "i = 1"
      with i(2) s1 show False by blast
    qed
  qed
  with c2 have s2: "2 \<notin> skip" by blast
  have "[0..<length three_boxes] = [0, 1, 2]" by (simp add: n upt_rec)
  then have "filter (\<lambda>i. i \<notin> skip) [0..<length three_boxes] = [0, 2]"
    using s0 s1 s2 by simp
  then show ?thesis by (simp add: r) (simp add: three_boxes_def)
qed

subsection \<open>Facts about the IDs\<close>

lemma locate_one_id:
  "locate_one f det idc = Inr (p, b) \<Longrightarrow> fst p = idc \<and> pid b = idc"
  by (auto simp: locate_one_def Let_def pid_def split: prod.splits sum.splits)

lemma np_index_ok: "0 \<le> i \<Longrightarrow> i < int n \<Longrightarrow> np_index n i = Inr (nat i)"
  by (simp add: np_index_def)

lemma depth_at_clamped:
  assumes "0 < rows a" "0 < cols a"
  shows "\<exists>v. depth_at a (max 0 (min cy (int (rows a) - 1))) (max 0 (min cx (int (cols a) - 1))) = Inr v"
proof -
  have "np_index (rows a) (max 0 (min cy (int (rows a) - 1))) = Inr (nat (max 0 (min cy (int (rows a) - 1))))"
    using assms(1) by (intro np_index_ok) auto
  moreover have "np_index (cols a) (max 0 (min cx (int (cols a) - 1))) = Inr (nat (max 0 (min cx (int (cols a) - 1))))"
    using assms(2) by (intro np_index_ok) auto
  ultimately show ?thesis by (simp add: depth_at_def)
qed

lemma locate_one_total:
  assumes "0 < rows (depth_image f)" "0 < cols (depth_image f)"
  shows "\<exists>p b. locate_one f det idc = Inr (p, b)"
proof -
  obtain left top' right bottom sc where d: "det = (left, top', right, bottom, sc)"
    by (cases det)
  let ?cy = "py_int (real_of_int (py_int (max 0 (min (real_of_int (orig_h f - 1)) top'))
                + py_int (max 0 (min (real_of_int (orig_h f - 1)) bottom))) / 2)"
  let ?cx = "py_int (real_of_int (py_int (max 0 (min (real_of_int (orig_w f - 1)) left))
                + py_int (max 0 (min (real_of_int (orig_w f - 1)) right))) / 2)"
  from depth_at_clamped [OF assms, of ?cy ?cx] obtain v where
    "depth_at (depth_image f) (max 0 (min ?cy (int (rows (depth_image f)) - 1)))
        (max 0 (min ?cx (int (cols (depth_image f)) - 1))) = Inr v" by blast
  moreover obtain X Y Z where
    "deproject f (max 0 (min ?cx (int (cols (depth_image f)) - 1)),
                  max 0 (min ?cy (int (rows (depth_image f)) - 1)))
       (real v * depth_scale f) = (X, Y, Z)"
    by (rule prod_cases3)
  ultimately show ?thesis
    by (simp add: locate_one_def d Let_def)
qed

lemma locate_ids:
  "locate f dets idc pp pb = Inr (pp', pb') \<Longrightarrow>
     map pid pb' = map pid pb @ map (\<lambda>k. idc + int k) [0..<length dets]
     \<and> map fst pp' = map fst pp @ map (\<lambda>k. idc + int k) [0..<length dets]"
proof (induction dets arbitrary: idc pp pb)
  case Nil
  then show ?case by simp
next
  case (Cons det dets)
  from Cons.prems obtain p b where o: "locate_one f det idc = Inr (p, b)"
    and l: "locate f dets (idc + 1) (pp @ [p]) (pb @ [b]) = Inr (pp', pb')"
    by (auto split: sum.splits prod.splits)
  from locate_one_id [OF o] have i: "fst p = idc" "pid b = idc" by simp_all
  have u: "map (\<lambda>k. idc + int k) [0..<length (det # dets)]
      = idc # map (\<lambda>k. idc + 1 + int k) [0..<length dets]"
    by (simp add: upt_conv_Cons map_Suc_upt [symmetric] del: upt_Suc)
  from Cons.IH [OF l] show ?case by (simp only: u) (simp add: i)
qed

lemma locate_total:
  assumes "0 < rows (depth_image f)" "0 < cols (depth_image f)"
  shows "\<exists>pp' pb'. locate f dets idc pp pb = Inr (pp', pb')"
proof (induction dets arbitrary: idc pp pb)
  case Nil
  then show ?case by simp
next
  case (Cons det dets)
  from locate_one_total [OF assms, of det idc] obtain p b
    where o: "locate_one f det idc = Inr (p, b)" by blast
  from Cons.IH [of "idc + 1" "pp @ [p]" "pb @ [b]"] show ?case by (simp add: o)
qed

lemma merge_persons_ok:
  assumes "length pp = length pb"
  shows "merge_persons pb pp
     = Inr (map (\<lambda>i. pb ! i) (filter (\<lambda>i. i \<notin> skipped pb pp [0..<length pb] {}) [0..<length pb]))"
  using merge_outer_ok [OF assms, of 0 "{}" "[]"] by (simp add: merge_persons_def)

text \<open>
  C8. When the loop over the detections returns, the IDs in \<open>person_boxes\<close> and in
  \<open>person_positions\<close> are \<open>1, 2, \<dots>, n\<close> in order, \<open>n\<close> the number of detections; then
  the merge returns a list whose entries are entries of \<open>person_boxes\<close>, each with an
  ID of at least 1, and no two with the same ID. The loop returns whenever the depth
  image is not empty.
\<close>

theorem person_ids:
  "(\<forall>pp pb. locate_persons f dets = Inr (pp, pb) \<longrightarrow>
      map pid pb = map (\<lambda>k. 1 + int k) [0..<length dets]
      \<and> map fst pp = map (\<lambda>k. 1 + int k) [0..<length dets]
      \<and> (\<exists>merged. merge_persons pb pp = Inr merged
            \<and> set merged \<subseteq> set pb
            \<and> (\<forall>b \<in> set merged. 1 \<le> pid b)
            \<and> distinct (map pid merged)))
   \<and> (0 < rows (depth_image f) \<and> 0 < cols (depth_image f) \<longrightarrow>
        (\<exists>pp pb. locate_persons f dets = Inr (pp, pb)))"
proof (intro conjI allI impI)
  fix pp pb
  assume l: "locate_persons f dets = Inr (pp, pb)"
  from locate_ids [of f dets 1 "[]" "[]" pp pb] l
  have ib: "map pid pb = map (\<lambda>k. 1 + int k) [0..<length dets]"
    and ip: "map fst pp = map (\<lambda>k. 1 + int k) [0..<length dets]"
    by (simp_all add: locate_persons_def)
  show "map pid pb = map (\<lambda>k. 1 + int k) [0..<length dets]" by (rule ib)
  show "map fst pp = map (\<lambda>k. 1 + int k) [0..<length dets]" by (rule ip)
  have lb: "length pb = length dets" using arg_cong [OF ib, of length] by simp
  have lp: "length pp = length dets" using arg_cong [OF ip, of length] by simp
  have len: "length pp = length pb" by (simp add: lb lp)
  have idn: "pid (pb ! i) = 1 + int i" if "i < length pb" for i
  proof -
    have "map pid pb ! i = map (\<lambda>k. 1 + int k) [0..<length dets] ! i" by (simp only: ib)
    then show ?thesis using that lb by simp
  qed
  let ?keep = "filter (\<lambda>i. i \<notin> skipped pb pp [0..<length pb] {}) [0..<length pb]"
  let ?merged = "map (\<lambda>i. pb ! i) ?keep"
  have m: "merge_persons pb pp = Inr ?merged" by (rule merge_persons_ok [OF len])
  have sub: "set ?merged \<subseteq> set pb" by auto
  have ge: "\<forall>b \<in> set ?merged. 1 \<le> pid b" using idn by auto
  have "map pid ?merged = map (\<lambda>i. pid (pb ! i)) ?keep" by (simp add: o_def)
  also have "\<dots> = map (\<lambda>i. 1 + int i) ?keep"
    by (rule map_cong [OF refl]) (simp add: idn)
  finally have e: "map pid ?merged = map (\<lambda>i. 1 + int i) ?keep" .
  have "distinct (map (\<lambda>i. 1 + int i) ?keep)"
    by (simp add: distinct_map inj_on_def)
  then have di: "distinct (map pid ?merged)" by (simp only: e)
  from m sub ge di
  show "\<exists>merged. merge_persons pb pp = Inr merged \<and> set merged \<subseteq> set pb
          \<and> (\<forall>b \<in> set merged. 1 \<le> pid b) \<and> distinct (map pid merged)"
    by blast
next
  assume "0 < rows (depth_image f) \<and> 0 < cols (depth_image f)"
  then show "\<exists>pp pb. locate_persons f dets = Inr (pp, pb)"
    using locate_total [of f dets 1 "[]" "[]"] by (simp add: locate_persons_def)
qed


definition small_frame :: frame where
  "small_frame = \<lparr>orig_w = 1280, orig_h = 720,
     depth_image = \<lparr>rows = 720, cols = 1280, raw = (\<lambda>r c. 2000)\<rparr>,
     depth_scale = 1 / 1000,
     deproject = (\<lambda>p d. (0, 0, d))\<rparr>"

theorem person_ids_witness:
  "\<exists>pp pb merged.
     locate_persons small_frame [(10, 20, 110, 220, 9 / 10), (600, 20, 700, 220, 8 / 10)] = Inr (pp, pb)
     \<and> map pid pb = [1, 2]
     \<and> merge_persons pb pp = Inr merged
     \<and> distinct (map pid merged)"
proof -
  let ?dets = "[(10, 20, 110, 220, 9 / 10), (600, 20, 700, 220, 8 / 10)] :: det list"
  have d: "0 < rows (depth_image small_frame) \<and> 0 < cols (depth_image small_frame)"
    by (simp add: small_frame_def)
  from person_ids [of small_frame ?dets, THEN conjunct2] d
  obtain pp pb where l: "locate_persons small_frame ?dets = Inr (pp, pb)" by blast
  from person_ids [of small_frame ?dets, THEN conjunct1] l
  have i: "map pid pb = map (\<lambda>k. 1 + int k) [0..<length ?dets]"
    and m: "\<exists>merged. merge_persons pb pp = Inr merged \<and> set merged \<subseteq> set pb
              \<and> (\<forall>b \<in> set merged. 1 \<le> pid b) \<and> distinct (map pid merged)"
    by blast+
  have "map (\<lambda>k. 1 + int k) [0..<length ?dets] = [1, 2]" by (simp add: upt_rec)
  with i have j: "map pid pb = [1, 2]" by simp
  from m obtain merged where g: "merge_persons pb pp = Inr merged"
    and h: "distinct (map pid merged)" by blast
  show ?thesis
  proof (intro exI conjI)
    show "locate_persons small_frame ?dets = Inr (pp, pb)" by (rule l)
    show "map pid pb = [1, 2]" by (rule j)
    show "merge_persons pb pp = Inr merged" by (rule g)
    show "distinct (map pid merged)" by (rule h)
  qed
qed

subsection \<open>Facts about the distance loop\<close>

lemma pairs_inner_eq:
  "pairs_inner dep pb i js cp =
     cp @ map (\<lambda>j. (pid (pb ! i), pid (pb ! j), person_dist dep (pb ! i) (pb ! j)))
            (filter (\<lambda>j. person_dist dep (pb ! i) (pb ! j) < 8 / 10) js)"
  by (induction js arbitrary: cp) (simp_all add: Let_def)

lemma pairs_outer_eq:
  "pairs_outer dep pb is cp =
     cp @ concat (map (\<lambda>i. map (\<lambda>j. (pid (pb ! i), pid (pb ! j), person_dist dep (pb ! i) (pb ! j)))
                           (filter (\<lambda>j. person_dist dep (pb ! i) (pb ! j) < 8 / 10)
                              [i + 1..<length pb])) is)"
  by (induction "is" arbitrary: cp) (simp_all add: pairs_inner_eq)

lemma pairs_sorted:
  "sorted_wrt (<) is \<Longrightarrow>
     sorted_wrt (\<lambda>p q. fst p < fst q \<or> (fst p = fst q \<and> snd p < snd q))
       (concat (map (\<lambda>i. map (\<lambda>j. (i, j)) [i + 1..<n]) is))"
proof (induction "is")
  case Nil
  then show ?case by simp
next
  case (Cons i "is")
  have a: "sorted_wrt (\<lambda>p q. fst p < fst q \<or> (fst p = fst q \<and> snd p < snd q))
             (map (\<lambda>j. (i, j)) [i + 1..<n])"
    by (simp add: sorted_wrt_map)
  have b: "sorted_wrt (\<lambda>p q. fst p < fst q \<or> (fst p = fst q \<and> snd p < snd q))
             (concat (map (\<lambda>i. map (\<lambda>j. (i, j)) [i + 1..<n]) is))"
    using Cons by simp
  have c: "\<forall>p \<in> set (map (\<lambda>j. (i, j)) [i + 1..<n]).
           \<forall>q \<in> set (concat (map (\<lambda>i. map (\<lambda>j. (i, j)) [i + 1..<n]) is)).
             fst p < fst q \<or> (fst p = fst q \<and> snd p < snd q)"
    using Cons.prems by auto
  from a b c show ?case by (simp only: list.map concat.simps sorted_wrt_append)
qed

lemma index_pairs_set: "set (index_pairs n) = {(i, j). i < j \<and> j < n}"
proof (rule set_eqI)
  fix p :: "nat \<times> nat"
  obtain a b where p: "p = (a, b)" by (cases p)
  have "(a, b) \<in> set (index_pairs n) \<longleftrightarrow> (\<exists>i \<in> {0..<n}. (a, b) \<in> Pair i ` {Suc i..<n})"
    by (simp add: index_pairs_def)
  also have "\<dots> \<longleftrightarrow> (\<exists>i < n. a = i \<and> i < b \<and> b < n)"
    by (auto simp: image_iff)
  also have "\<dots> \<longleftrightarrow> a < b \<and> b < n" by auto
  finally show "p \<in> set (index_pairs n) \<longleftrightarrow> p \<in> {(i, j). i < j \<and> j < n}"
    by (simp add: p)
qed

lemma close_pairs_eq:
  "close_pairs dep pb =
     map (\<lambda>(i, j). (pid (pb ! i), pid (pb ! j), person_dist dep (pb ! i) (pb ! j)))
       (filter (\<lambda>(i, j). person_dist dep (pb ! i) (pb ! j) < 8 / 10) (index_pairs (length pb)))"
  by (simp add: close_pairs_def pairs_outer_eq index_pairs_def map_concat filter_concat
      filter_map o_def)

text \<open>
  C3. The alerts are, in order, the triples \<open>(id_i, id_j, distance)\<close> of exactly those
  index pairs \<open>(i, j)\<close> of the list of all pairs \<open>i < j\<close> for which the distance is
  strictly below 0.8, where the distance is the Euclidean distance of the two points
  obtained by deprojecting each person's box centre \<open>((l + r) // 2, (t + b) // 2)\<close> at
  that person's depth. The list of pairs holds every pair \<open>i < j < n\<close> and is strictly
  ascending in \<open>(i, j)\<close>, so each pair is tested once and a person may occur in several
  alerts.
\<close>

theorem close_pairs_alerts:
  "close_pairs dep pb =
     map (\<lambda>(i, j). (case pb ! i of (pid1, l1, t1, r1, b1, d1) \<Rightarrow>
          case pb ! j of (pid2, l2, t2, r2, b2, d2) \<Rightarrow>
          case dep ((l1 + r1) div 2, (t1 + b1) div 2) d1 of (X1, Y1, Z1) \<Rightarrow>
          case dep ((l2 + r2) div 2, (t2 + b2) div 2) d2 of (X2, Y2, Z2) \<Rightarrow>
            (pid1, pid2, sqrt ((X1 - X2)\<^sup>2 + (Y1 - Y2)\<^sup>2 + (Z1 - Z2)\<^sup>2))))
       (filter (\<lambda>(i, j). (case pb ! i of (pid1, l1, t1, r1, b1, d1) \<Rightarrow>
          case pb ! j of (pid2, l2, t2, r2, b2, d2) \<Rightarrow>
          case dep ((l1 + r1) div 2, (t1 + b1) div 2) d1 of (X1, Y1, Z1) \<Rightarrow>
          case dep ((l2 + r2) div 2, (t2 + b2) div 2) d2 of (X2, Y2, Z2) \<Rightarrow>
            sqrt ((X1 - X2)\<^sup>2 + (Y1 - Y2)\<^sup>2 + (Z1 - Z2)\<^sup>2) < 8 / 10))
          (index_pairs (length pb)))
   \<and> set (index_pairs (length pb)) = {(i, j). i < j \<and> j < length pb}
   \<and> sorted_wrt (\<lambda>p q. fst p < fst q \<or> (fst p = fst q \<and> snd p < snd q))
        (index_pairs (length pb))"
proof (intro conjI)
  have f: "(pid b, pid b', person_dist dep b b') = (case b of (pid1, l1, t1, r1, b1, d1) \<Rightarrow>
          case b' of (pid2, l2, t2, r2, b2, d2) \<Rightarrow>
          case dep ((l1 + r1) div 2, (t1 + b1) div 2) d1 of (X1, Y1, Z1) \<Rightarrow>
          case dep ((l2 + r2) div 2, (t2 + b2) div 2) d2 of (X2, Y2, Z2) \<Rightarrow>
            (pid1, pid2, sqrt ((X1 - X2)\<^sup>2 + (Y1 - Y2)\<^sup>2 + (Z1 - Z2)\<^sup>2)))" for b b'
    by (simp add: pid_def person_dist_def distance3d_def split: prod.splits)
  have g: "(person_dist dep b b' < 8 / 10) = (case b of (pid1, l1, t1, r1, b1, d1) \<Rightarrow>
          case b' of (pid2, l2, t2, r2, b2, d2) \<Rightarrow>
          case dep ((l1 + r1) div 2, (t1 + b1) div 2) d1 of (X1, Y1, Z1) \<Rightarrow>
          case dep ((l2 + r2) div 2, (t2 + b2) div 2) d2 of (X2, Y2, Z2) \<Rightarrow>
            sqrt ((X1 - X2)\<^sup>2 + (Y1 - Y2)\<^sup>2 + (Z1 - Z2)\<^sup>2) < 8 / 10)" for b b'
    by (simp add: person_dist_def distance3d_def split: prod.splits)
  show "close_pairs dep pb =
     map (\<lambda>(i, j). (case pb ! i of (pid1, l1, t1, r1, b1, d1) \<Rightarrow>
          case pb ! j of (pid2, l2, t2, r2, b2, d2) \<Rightarrow>
          case dep ((l1 + r1) div 2, (t1 + b1) div 2) d1 of (X1, Y1, Z1) \<Rightarrow>
          case dep ((l2 + r2) div 2, (t2 + b2) div 2) d2 of (X2, Y2, Z2) \<Rightarrow>
            (pid1, pid2, sqrt ((X1 - X2)\<^sup>2 + (Y1 - Y2)\<^sup>2 + (Z1 - Z2)\<^sup>2))))
       (filter (\<lambda>(i, j). (case pb ! i of (pid1, l1, t1, r1, b1, d1) \<Rightarrow>
          case pb ! j of (pid2, l2, t2, r2, b2, d2) \<Rightarrow>
          case dep ((l1 + r1) div 2, (t1 + b1) div 2) d1 of (X1, Y1, Z1) \<Rightarrow>
          case dep ((l2 + r2) div 2, (t2 + b2) div 2) d2 of (X2, Y2, Z2) \<Rightarrow>
            sqrt ((X1 - X2)\<^sup>2 + (Y1 - Y2)\<^sup>2 + (Z1 - Z2)\<^sup>2) < 8 / 10))
          (index_pairs (length pb)))"
    by (simp only: close_pairs_eq [of dep pb] f g)
  show "set (index_pairs (length pb)) = {(i, j). i < j \<and> j < length pb}"
    by (rule index_pairs_set)
  show "sorted_wrt (\<lambda>p q. fst p < fst q \<or> (fst p = fst q \<and> snd p < snd q))
        (index_pairs (length pb))"
    unfolding index_pairs_def by (rule pairs_sorted) simp
qed

text \<open>A deprojection that scales the pixel by the depth, as a pinhole camera does.\<close>

definition pinhole :: "int \<times> int \<Rightarrow> real \<Rightarrow> point3" where
  "pinhole p d = (case p of (px, py) \<Rightarrow> (real_of_int px * d / 1000, real_of_int py * d / 1000, d))"

definition three_people :: "pbox list" where
  "three_people = [(1, 500, 0, 701, 200, 1), (2, 400, 150, 600, 350, 8 / 5), (3, 0, 0, 200, 200, 4)]"

text \<open>
  Persons 1 and 2 are deprojected to \<open>(0.6, 0.1, 1)\<close> and \<open>(0.8, 0.4, 1.6)\<close>, 0.7 m
  apart; person 3, at \<open>(0.4, 0.4, 4)\<close>, is far from both.
\<close>

theorem close_pairs_alerts_witness:
  "close_pairs pinhole three_people = [(1, 2, 7 / 10)]"
proof -
  define alert where "alert = (\<lambda>(i, j). (case three_people ! i of (pid1, l1, t1, r1, b1, d1) \<Rightarrow>
          case three_people ! j of (pid2, l2, t2, r2, b2, d2) \<Rightarrow>
          case pinhole ((l1 + r1) div 2, (t1 + b1) div 2) d1 of (X1, Y1, Z1) \<Rightarrow>
          case pinhole ((l2 + r2) div 2, (t2 + b2) div 2) d2 of (X2, Y2, Z2) \<Rightarrow>
            (pid1, pid2, sqrt ((X1 - X2)\<^sup>2 + (Y1 - Y2)\<^sup>2 + (Z1 - Z2)\<^sup>2))))"
  define near where "near = (\<lambda>(i, j). (case three_people ! i of (pid1, l1, t1, r1, b1, d1) \<Rightarrow>
          case three_people ! j of (pid2, l2, t2, r2, b2, d2) \<Rightarrow>
          case pinhole ((l1 + r1) div 2, (t1 + b1) div 2) d1 of (X1, Y1, Z1) \<Rightarrow>
          case pinhole ((l2 + r2) div 2, (t2 + b2) div 2) d2 of (X2, Y2, Z2) \<Rightarrow>
            sqrt ((X1 - X2)\<^sup>2 + (Y1 - Y2)\<^sup>2 + (Z1 - Z2)\<^sup>2) < 8 / 10))"
  have t: "three_people ! 0 = (1, 500, 0, 701, 200, 1)"
    "three_people ! Suc 0 = (2, 400, 150, 600, 350, 8 / 5)"
    "three_people ! Suc (Suc 0) = (3, 0, 0, 200, 200, 4)"
    by (simp_all add: three_people_def)
  have p: "pinhole ((500 + 701) div 2, (0 + 200) div 2) 1 = (3 / 5, 1 / 10, 1)"
    "pinhole ((400 + 600) div 2, (150 + 350) div 2) (8 / 5) = (4 / 5, 2 / 5, 8 / 5)"
    "pinhole ((0 + 200) div 2, (0 + 200) div 2) 4 = (2 / 5, 2 / 5, 4)"
    by (simp_all add: pinhole_def)
  have d01: "sqrt ((3 / 5 - 4 / 5)\<^sup>2 + (1 / 10 - 2 / 5)\<^sup>2 + (1 - 8 / 5)\<^sup>2) = 7 / 10"
    by (rule real_sqrt_unique) (simp_all add: power2_eq_square)
  have "sqrt ((3 / 5 - 2 / 5)\<^sup>2 + (1 / 10 - 2 / 5)\<^sup>2 + (1 - 4)\<^sup>2) < 8 / 10
      \<longleftrightarrow> (3 / 5 - 2 / 5)\<^sup>2 + (1 / 10 - 2 / 5)\<^sup>2 + (1 - 4)\<^sup>2 < ((8 / 10)\<^sup>2 :: real)"
    by (rule sqrt_less_iff_square) simp
  then have d02: "\<not> sqrt ((3 / 5 - 2 / 5)\<^sup>2 + (1 / 10 - 2 / 5)\<^sup>2 + (1 - 4)\<^sup>2) < 8 / 10"
    by (simp add: power2_eq_square)
  have "sqrt ((4 / 5 - 2 / 5)\<^sup>2 + (2 / 5 - 2 / 5)\<^sup>2 + (8 / 5 - 4)\<^sup>2) < 8 / 10
      \<longleftrightarrow> (4 / 5 - 2 / 5)\<^sup>2 + (2 / 5 - 2 / 5)\<^sup>2 + (8 / 5 - 4)\<^sup>2 < ((8 / 10)\<^sup>2 :: real)"
    by (rule sqrt_less_iff_square) simp
  then have d12: "\<not> sqrt ((4 / 5 - 2 / 5)\<^sup>2 + (2 / 5 - 2 / 5)\<^sup>2 + (8 / 5 - 4)\<^sup>2) < 8 / 10"
    by (simp add: power2_eq_square)
  have a01: "alert (0, Suc 0) = (1, 2, 7 / 10)"
    unfolding alert_def by (simp only: t p d01 prod.case)
  have n01: "near (0, Suc 0)"
    unfolding near_def by (simp only: t p d01 prod.case)
  have n02: "\<not> near (0, Suc (Suc 0))"
    unfolding near_def by (simp only: t p prod.case) (rule d02)
  have n12: "\<not> near (Suc 0, Suc (Suc 0))"
    unfolding near_def by (simp only: t p prod.case) (rule d12)
  have "length three_people = Suc (Suc (Suc 0))" by (simp add: three_people_def)
  then have ip: "index_pairs (length three_people) = [(0, Suc 0), (0, Suc (Suc 0)), (Suc 0, Suc (Suc 0))]"
    by (simp add: index_pairs_def upt_rec)
  have "close_pairs pinhole three_people = map alert (filter near (index_pairs (length three_people)))"
    unfolding alert_def near_def
    by (rule close_pairs_alerts [of pinhole three_people, THEN conjunct1])
  then show ?thesis by (simp only: ip filter.simps n01 n02 n12 if_True if_False list.map a01)
qed

text \<open>
  C7. Every stage maps nothing to nothing without raising: the decoder when no anchor
  passes the class and confidence filter, \<open>nms\<close> on the empty list, the loop that
  assigns IDs and positions, the merge, and the distance loop.
\<close>

theorem empty_stages:
  "((\<forall>k < shape1 out. \<not> is_person out conf k) \<longrightarrow>
      decode_yolov11_persons (out # rest) w h conf = Inr [])
   \<and> nms [] t = Inr []
   \<and> locate_persons f [] = Inr ([], [])
   \<and> merge_persons [] [] = Inr []
   \<and> close_pairs dep [] = []"
proof (intro conjI impI)
  assume n: "\<forall>k < shape1 out. \<not> is_person out conf k"
  show "decode_yolov11_persons (out # rest) w h conf = Inr []"
  proof (cases "shape0 out = 84")
    case True
    have "filter (is_person out conf) [0..<shape1 out] = []" using n by (simp add: filter_empty_conv)
    then show ?thesis by (simp add: decode_84 [OF True] nms_def)
  next
    case False
    then show ?thesis by (simp add: decode_yolov11_persons_def)
  qed
next
  show "nms [] t = Inr []" by (simp add: nms_def)
  show "locate_persons f [] = Inr ([], [])" by (simp add: locate_persons_def)
  show "merge_persons [] [] = Inr []" by (simp add: merge_persons_def)
  show "close_pairs dep [] = []" by (simp add: close_pairs_def)
qed

definition no_person :: ndarray2 where
  "no_person = \<lparr>shape0 = 84, shape1 = 2, item = (\<lambda>r k. if r = 5 then 9 / 10 else 1 / 10)\<rparr>"

theorem empty_stages_witness:
  "decode_yolov11_persons [no_person] 1280 720 CONF_THRESH = Inr []"
proof -
  have "\<forall>k < shape1 no_person. \<not> is_person no_person CONF_THRESH k"
    by (simp add: is_person_def no_person_def CONF_THRESH_def)
  with empty_stages [of no_person CONF_THRESH "[]" 1280 720, THEN conjunct1]
  show ?thesis by simp
qed

end
